theory Spec2Isabelle
  imports Complex_Main
begin

section \<open>Data model of the tic-tac-toe component (Game.jsx)\<close>

text \<open>
  The component keeps the board as a JavaScript array whose elements are \<open>null\<close>, \<open>'X'\<close>
  or \<open>'O'\<close>. A JavaScript array can also have holes (after a write beyond its length) and
  a read outside the array gives \<open>undefined\<close>; both are cell values of the model, so that
  every read and write of the source has its JavaScript meaning.
\<close>

datatype player = PlayerX | PlayerO

datatype cell = Hole | Undefined | Null | Mark player

type_synonym board = "cell list"

text \<open>JavaScript truthiness of a cell: only the non-empty strings \<open>'X'\<close> and \<open>'O'\<close>.\<close>

fun truthy :: "cell \<Rightarrow> bool" where
  "truthy (Mark p) = True"
| "truthy Hole = False"
| "truthy Undefined = False"
| "truthy Null = False"

text \<open>\<open>arr[i]\<close>: a hole and an index outside the array both read as \<open>undefined\<close>.\<close>

definition rd :: "board \<Rightarrow> nat \<Rightarrow> cell" where
  "rd arr i = (if i < length arr then (if arr ! i = Hole then Undefined else arr ! i)
               else Undefined)"

text \<open>
  \<open>arr[i] = v\<close>: a write beyond the end extends the array, leaving holes. (This is the
  write at an array index, an integer below \<open>2 ^ 32 - 1\<close>; every write of the component is
  at an index of a cell of the array.)
\<close>

definition js_set :: "board \<Rightarrow> nat \<Rightarrow> cell \<Rightarrow> board" where
  "js_set arr i v = (if i < length arr then arr[i := v]
                     else arr @ replicate (i - length arr) Hole @ [v])"

text \<open>\<open>[...arr]\<close>: the copy has \<open>undefined\<close> where the array has a hole.\<close>

definition spread :: "board \<Rightarrow> board" where
  "spread arr = map (\<lambda>c. if c = Hole then Undefined else c) arr"

text \<open>\<open>arr.every(cell => cell)\<close>: \<open>every\<close> skips holes.\<close>

definition every_truthy :: "board \<Rightarrow> bool" where
  "every_truthy arr = list_all (\<lambda>c. c = Hole \<or> truthy c) arr"

text \<open>
  JavaScript numbers as the search uses them: integers and the two infinities that start
  the running maximum and minimum.
\<close>

datatype jsnum = NegInf | Num int | PosInf

instantiation jsnum :: linorder
begin

fun less_eq_jsnum :: "jsnum \<Rightarrow> jsnum \<Rightarrow> bool" where
  "less_eq_jsnum NegInf _ = True"
| "less_eq_jsnum (Num a) NegInf = False"
| "less_eq_jsnum (Num a) (Num b) = (a \<le> b)"
| "less_eq_jsnum (Num a) PosInf = True"
| "less_eq_jsnum PosInf PosInf = True"
| "less_eq_jsnum PosInf _ = False"

definition less_jsnum :: "jsnum \<Rightarrow> jsnum \<Rightarrow> bool" where
  "less_jsnum a b = (a \<le> b \<and> \<not> b \<le> a)"

instance
proof
  fix x y z :: jsnum
  show "(x < y) = (x \<le> y \<and> \<not> y \<le> x)" by (simp add: less_jsnum_def)
  show "x \<le> x" by (cases x) simp_all
  show "x \<le> y \<Longrightarrow> y \<le> z \<Longrightarrow> x \<le> z" by (cases x; cases y; cases z) simp_all
  show "x \<le> y \<Longrightarrow> y \<le> x \<Longrightarrow> x = y" by (cases x; cases y) simp_all
  show "x \<le> y \<or> y \<le> x" by (cases x; cases y) auto
qed

end

section \<open>Rules engine\<close>

text \<open>
  \<open>checkWinner(arr, size, player)\<close>. The helper \<open>checkLine(start, step)\<close> reads the
  \<open>size\<close> cells \<open>arr[start + i * step]\<close> and tests that each is \<open>player\<close>. The loops with
  an early \<open>return true\<close> are existentials over \<open>0 ..< size\<close>, in the order of the source.
\<close>

definition checkLine :: "board \<Rightarrow> nat \<Rightarrow> player \<Rightarrow> nat \<Rightarrow> nat \<Rightarrow> bool" where
  "checkLine arr sz player start step =
     list_all (\<lambda>cell. cell = Mark player) (map (\<lambda>i. rd arr (start + i * step)) [0..<sz])"

definition checkWinner :: "board \<Rightarrow> nat \<Rightarrow> player \<Rightarrow> bool" where
  "checkWinner arr sz player =
     (if list_ex (\<lambda>r. truthy (rd arr (r * sz)) \<and> checkLine arr sz player (r * sz) 1) [0..<sz]
      then True
      else if list_ex (\<lambda>c. truthy (rd arr c) \<and> checkLine arr sz player c sz) [0..<sz]
      then True
      else if truthy (rd arr 0) \<and> checkLine arr sz player 0 (sz + 1) then True
      else if sz \<noteq> 0 \<and> truthy (rd arr (sz - 1)) \<and> checkLine arr sz player (sz - 1) (sz - 1)
      then True
      else False)"

text \<open>
  In the last test \<open>size - 1\<close> is \<open>-1\<close> when \<open>size\<close> is 0, and \<open>arr[-1]\<close> is \<open>undefined\<close>:
  hence the guard \<open>size \<noteq> 0\<close>.

  \<open>isDraw(arr)\<close> reads \<open>boardSize\<close> from the component; it is a parameter here.
\<close>

definition isDraw :: "nat \<Rightarrow> board \<Rightarrow> bool" where
  "isDraw boardSize arr =
     (every_truthy arr \<and> \<not> checkWinner arr boardSize PlayerX \<and> \<not> checkWinner arr boardSize PlayerO)"

section \<open>Minimax search\<close>

text \<open>
  \<open>minimax(arr, depth, isMaximizing)\<close> writes into \<open>arr\<close> and restores it. The model
  threads the array: each function returns the score together with the array as the call
  leaves it, and the loop continues on the array that the recursive call returned.
\<close>

function minimax :: "nat \<Rightarrow> board \<Rightarrow> int \<Rightarrow> bool \<Rightarrow> jsnum \<times> board"
  and maxLoop :: "nat \<Rightarrow> nat \<Rightarrow> board \<Rightarrow> int \<Rightarrow> jsnum \<Rightarrow> jsnum \<times> board"
  and minLoop :: "nat \<Rightarrow> nat \<Rightarrow> board \<Rightarrow> int \<Rightarrow> jsnum \<Rightarrow> jsnum \<times> board"
where
  "minimax boardSize arr depth isMaximizing =
     (if checkWinner arr boardSize PlayerO then (Num (10 - depth), arr)
      else if checkWinner arr boardSize PlayerX then (Num (depth - 10), arr)
      else if every_truthy arr then (Num 0, arr)
      else if isMaximizing then maxLoop boardSize 0 arr depth NegInf
      else minLoop boardSize 0 arr depth PosInf)"
| "maxLoop boardSize i arr depth best =
     (if i < length arr then
        (if rd arr i = Null then
           (case minimax boardSize (js_set arr i (Mark PlayerO)) (depth + 1) False of
              (v, arr1) \<Rightarrow> maxLoop boardSize (i + 1) (js_set arr1 i Null) depth (max best v))
         else maxLoop boardSize (i + 1) arr depth best)
      else (best, arr))"
| "minLoop boardSize i arr depth best =
     (if i < length arr then
        (if rd arr i = Null then
           (case minimax boardSize (js_set arr i (Mark PlayerX)) (depth + 1) True of
              (v, arr1) \<Rightarrow> minLoop boardSize (i + 1) (js_set arr1 i Null) depth (min best v))
         else minLoop boardSize (i + 1) arr depth best)
      else (best, arr))"
  by pat_completeness auto

section \<open>Move selectors\<close>

text \<open>
  \<open>Math.random()\<close> returns an IEEE 754 double \<open>u\<close> with \<open>0 \<le> u < 1\<close>. Such a double is
  a number \<open>m / 2 ^ e\<close> with a significand \<open>m < 2 ^ 53\<close> and a scale \<open>e \<le> 1074\<close>, and
  every such number below 1 is one; the model has it as the pair \<open>(m, e)\<close>.

  \<open>Math.random() * empty.length\<close> is the double nearest to the product, ties going to the
  even significand. The length \<open>k\<close> is an integer below \<open>2 ^ 32\<close>, an exact Number, and the
  product is \<open>p / 2 ^ e\<close> with \<open>p = m * k\<close>. If \<open>p\<close> has at most 53 bits, the product is
  a double. If it has more, \<open>excess p\<close> of them, the product is at least \<open>2 ^ -1021\<close>, where
  a double has 53 bits: the result keeps the first 53 bits of \<open>p\<close>, rounded (\<open>roundEven\<close>).
  \<open>Math.floor\<close> of \<open>p / 2 ^ e\<close> is \<open>p div 2 ^ e\<close>.
\<close>

type_synonym double = "nat \<times> nat"

definition randomValue :: "double \<Rightarrow> bool" where
  "randomValue u = (case u of (m, e) \<Rightarrow> m < 2 ^ 53 \<and> e \<le> 1074 \<and> m < 2 ^ e)"

fun excess :: "nat \<Rightarrow> nat" where
  "excess p = (if p < 2 ^ 53 then 0 else Suc (excess (p div 2)))"

definition roundEven :: "nat \<Rightarrow> nat \<Rightarrow> nat" where
  "roundEven p s = (let q = p div 2 ^ s; r = p mod 2 ^ s in
                     if 2 ^ s < 2 * r \<or> (2 * r = 2 ^ s \<and> odd q) then q + 1 else q)"

definition mulDouble :: "double \<Rightarrow> nat \<Rightarrow> double" where
  "mulDouble u k = (case u of (m, e) \<Rightarrow>
                      (let p = m * k; s = excess p in (roundEven p s * 2 ^ s, e)))"

definition mathFloor :: "double \<Rightarrow> nat" where
  "mathFloor x = (case x of (p, e) \<Rightarrow> p div 2 ^ e)"

text \<open>
  \<open>getRandomMove()\<close>. \<open>board.map(...).filter(...)\<close> is the list of the indices whose cell
  is \<open>null\<close>, in increasing order. The value of \<open>Math.random()\<close> is the parameter \<open>u\<close>.
  For every \<open>u\<close> that \<open>Math.random\<close> can return the index
  \<open>Math.floor(u * empty.length)\<close> is inside \<open>empty\<close>. (For a pair \<open>u\<close> that stands for a
  number from 1 on, which \<open>Math.random\<close> never returns, the model gives \<open>None\<close>.)
\<close>

definition emptyCells :: "board \<Rightarrow> nat list" where
  "emptyCells board = filter (\<lambda>i. rd board i = Null) [0..<length board]"

definition getRandomMove :: "double \<Rightarrow> board \<Rightarrow> nat option" where
  "getRandomMove u board =
     (let empty = emptyCells board in
      if length empty = 0 then None
      else (let k = mathFloor (mulDouble u (length empty)) in
            if k < length empty then Some (empty ! k) else None))"

text \<open>
  \<open>getMediumMove()\<close>: the two loops return at the first index that passes their test
  (\<open>find\<close>), then the centre, then the random move.
\<close>

definition getMediumMove :: "double \<Rightarrow> nat \<Rightarrow> board \<Rightarrow> nat option" where
  "getMediumMove u boardSize board =
     (case find (\<lambda>i. rd board i = Null \<and>
                      checkWinner (js_set (spread board) i (Mark PlayerO)) boardSize PlayerO)
                [0..<length board] of
        Some i \<Rightarrow> Some i
      | None \<Rightarrow>
        (case find (\<lambda>i. rd board i = Null \<and>
                         checkWinner (js_set (spread board) i (Mark PlayerX)) boardSize PlayerX)
                   [0..<length board] of
           Some i \<Rightarrow> Some i
         | None \<Rightarrow>
           (let center = (boardSize * boardSize) div 2 in
            if rd board center = Null then Some center else getRandomMove u board)))"

text \<open>
  \<open>getBestMove()\<close>: the loop carries \<open>bestScore\<close> and \<open>move\<close>, starting from \<open>-Infinity\<close>
  and \<open>null\<close>; each empty cell is scored by \<open>minimax\<close> on a fresh copy of the board.
\<close>

definition bestStep :: "nat \<Rightarrow> board \<Rightarrow> jsnum \<times> nat option \<Rightarrow> nat \<Rightarrow> jsnum \<times> nat option" where
  "bestStep boardSize board acc i =
     (case acc of (bestScore, move) \<Rightarrow>
        if rd board i = Null then
          (let newBoard = js_set (spread board) i (Mark PlayerO);
               score = fst (minimax boardSize newBoard 0 False)
           in if score > bestScore then (score, Some i) else (bestScore, move))
        else (bestScore, move))"

definition getBestMove :: "nat \<Rightarrow> board \<Rightarrow> nat option" where
  "getBestMove boardSize board =
     snd (foldl (bestStep boardSize board) (NegInf, None) [0..<length board])"

section \<open>The component's state and its transitions\<close>

text \<open>
  The state variables of the component that the game logic reads or writes. The two
  messages of \<open>winnerMsg\<close> (\<open>"<player> Wins!"\<close> and \<open>"It's a Draw!"\<close>, each with an emoji
  in front) and the empty message are the three constructors of \<open>message\<close>.
\<close>

datatype message = NoMessage | WinsMessage player | DrawMessage

record game =
  board :: board
  currentPlayer :: player
  scores :: "player \<Rightarrow> nat"
  gameActive :: bool
  isAIMode :: bool
  boardSize :: nat
  aiDifficulty :: string
  winnerMsg :: message

definition otherPlayer :: "player \<Rightarrow> player" where
  "otherPlayer p = (if p = PlayerX then PlayerO else PlayerX)"

text \<open>
  \<open>handleCellClick(idx)\<close>, as the state that the call leaves. The guard
  \<open>if (!gameActive || board[idx]) return;\<close> leaves every state variable as it is.
\<close>

definition handleCellClick :: "game \<Rightarrow> nat \<Rightarrow> game" where
  "handleCellClick s idx =
     (if \<not> gameActive s \<or> truthy (rd (board s) idx) then s
      else
        (let nextBoard = js_set (spread (board s)) idx (Mark (currentPlayer s)) in
         if checkWinner nextBoard (boardSize s) (currentPlayer s) then
           s\<lparr>board := nextBoard,
             scores := (scores s)(currentPlayer s := scores s (currentPlayer s) + 1),
             winnerMsg := WinsMessage (currentPlayer s),
             gameActive := False\<rparr>
         else if isDraw (boardSize s) nextBoard then
           s\<lparr>board := nextBoard, winnerMsg := DrawMessage, gameActive := False\<rparr>
         else
           s\<lparr>board := nextBoard, currentPlayer := otherPlayer (currentPlayer s)\<rparr>))"

text \<open>\<open>makeAIMove()\<close>: the selection (\<open>aiMove\<close>), then the click on the chosen cell.\<close>

definition aiMove :: "double \<Rightarrow> game \<Rightarrow> nat option" where
  "aiMove u s =
     (if aiDifficulty s = ''easy'' then getRandomMove u (board s)
      else if aiDifficulty s = ''medium'' then getMediumMove u (boardSize s) (board s)
      else if aiDifficulty s = ''hard'' then getBestMove (boardSize s) (board s)
      else getRandomMove u (board s))"

definition makeAIMove :: "double \<Rightarrow> game \<Rightarrow> game" where
  "makeAIMove u s = (case aiMove u s of None \<Rightarrow> s | Some i \<Rightarrow> handleCellClick s i)"

text \<open>
  The state after \<open>resetGame()\<close> (and after the effect that follows a change of the board
  size): an empty board of \<open>boardSize * boardSize\<close> cells, X to move.
\<close>

definition resetGame :: "game \<Rightarrow> game" where
  "resetGame s =
     s\<lparr>board := replicate (boardSize s * boardSize s) Null,
       currentPlayer := PlayerX, gameActive := True, winnerMsg := NoMessage\<rparr>"

text \<open>The initial values of the state variables (\<open>useState\<close>).\<close>

definition initialState :: game where
  "initialState =
     \<lparr>board = replicate 9 Null, currentPlayer = PlayerX, scores = (\<lambda>p. 0),
      gameActive = True, isAIMode = False, boardSize = 3, aiDifficulty = ''easy'',
      winnerMsg = NoMessage\<rparr>"

section \<open>Notions of the specification\<close>

text \<open>
  The candidate lines of a board of side \<open>sz\<close>, as the specification lists them: the rows,
  then the columns, then the main diagonal, then the anti-diagonal; cell \<open>(r, c)\<close> has
  index \<open>r * sz + c\<close>. A player occupies a line when every cell of the line holds the
  player's mark.
\<close>

definition spec_lines :: "nat \<Rightarrow> nat list list" where
  "spec_lines sz =
     map (\<lambda>r. map (\<lambda>c. r * sz + c) [0..<sz]) [0..<sz] @
     map (\<lambda>c. map (\<lambda>r. r * sz + c) [0..<sz]) [0..<sz] @
     [map (\<lambda>k. k * sz + k) [0..<sz], map (\<lambda>k. k * sz + (sz - 1 - k)) [0..<sz]]"

definition spec_occupies :: "board \<Rightarrow> player \<Rightarrow> nat list \<Rightarrow> bool" where
  "spec_occupies arr p line = list_all (\<lambda>i. rd arr i = Mark p) line"

definition spec_hasLine :: "board \<Rightarrow> nat \<Rightarrow> player \<Rightarrow> bool" where
  "spec_hasLine arr sz p = list_ex (spec_occupies arr p) (spec_lines sz)"

text \<open>
  An empty cell that, filled with the mark of player \<open>p\<close>, completes a line of \<open>p\<close>.
\<close>

definition spec_completes :: "nat \<Rightarrow> board \<Rightarrow> player \<Rightarrow> nat \<Rightarrow> bool" where
  "spec_completes n b p i = (i < length b \<and> b ! i = Null \<and> spec_hasLine (b[i := Mark p]) n p)"

text \<open>
  The draw of the specification: every cell is occupied and no player has a line.
\<close>

definition spec_occupied :: "cell \<Rightarrow> bool" where
  "spec_occupied c = (case c of Mark p \<Rightarrow> True | _ \<Rightarrow> False)"

definition spec_isDraw :: "nat \<Rightarrow> board \<Rightarrow> bool" where
  "spec_isDraw n arr =
     (list_all spec_occupied arr \<and> \<not> spec_hasLine arr n PlayerX \<and> \<not> spec_hasLine arr n PlayerO)"

text \<open>
  A board of the data model: every cell is empty or holds a mark (the array has no hole
  and no \<open>undefined\<close> element).
\<close>

definition spec_board :: "board \<Rightarrow> bool" where
  "spec_board arr = list_all (\<lambda>c. c = Null \<or> spec_occupied c) arr"

text \<open>
  The errors of the specification (its section 7) and its \<open>applyMove\<close>, in the words of
  section 4.1: the call fails with \<open>IllegalMove\<close> when the index is out of range, the cell
  is occupied or the game is already terminal (a player has a line, or the board is a
  draw); otherwise it returns the board with the player's mark at the index.
\<close>

datatype error = IllegalMove | InvalidConfiguration

definition spec_terminal :: "nat \<Rightarrow> board \<Rightarrow> bool" where
  "spec_terminal n b = (spec_hasLine b n PlayerX \<or> spec_hasLine b n PlayerO \<or> spec_isDraw n b)"

definition spec_applyMove :: "nat \<Rightarrow> board \<Rightarrow> nat \<Rightarrow> player \<Rightarrow> error + board" where
  "spec_applyMove n b i p =
     (if length b \<le> i \<or> spec_occupied (b ! i) \<or> spec_terminal n b then Inl IllegalMove
      else Inr (b[i := Mark p]))"

text \<open>
  The call \<open>handleCellClick(idx)\<close> as its caller sees it. A JavaScript call returns or
  throws. The body of \<open>handleCellClick\<close> has no \<open>throw\<close>; its two exits are the bare
  \<open>return\<close> of the guard, before anything else of the body has run, and the end of the
  body. So the call returns on every path (\<open>Inr\<close>), with the state that
  \<open>handleCellClick\<close> leaves, and no path gives an error (\<open>Inl\<close>).
\<close>

definition clickResult :: "game \<Rightarrow> nat \<Rightarrow> error + game" where
  "clickResult s idx = Inr (handleCellClick s idx)"

section \<open>Auxiliary notions\<close>

text \<open>The number of \<open>null\<close> cells of an array: the search fills one at each level.\<close>

definition nulls :: "board \<Rightarrow> nat" where
  "nulls arr = length (filter (\<lambda>c. c = Null) arr)"

text \<open>The score that \<open>minimax\<close> returns.\<close>

definition score :: "nat \<Rightarrow> board \<Rightarrow> int \<Rightarrow> bool \<Rightarrow> jsnum" where
  "score n arr d m = fst (minimax n arr d m)"

text \<open>
  The score of the one-ply simulation of \<open>getBestMove\<close> at index \<open>i\<close>: the copy of the
  board with O's mark at \<open>i\<close>, searched at depth 0 with X to move.
\<close>

definition oneply :: "nat \<Rightarrow> board \<Rightarrow> nat \<Rightarrow> jsnum" where
  "oneply n b i = score n (js_set (spread b) i (Mark PlayerO)) 0 False"

text \<open>
  The boards that one move of player \<open>p\<close> reaches, in the order of the index of the
  filled cell, and the scores of a list of boards.
\<close>

fun succs :: "player \<Rightarrow> board \<Rightarrow> board list" where
  "succs p [] = []"
| "succs p (c # cs) = (if c = Null then [Mark p # cs] else []) @ map ((#) c) (succs p cs)"

text \<open>
  A checkable certificate about the search: \<open>holds k n p w b m\<close> explores, with fuel
  \<open>k\<close>, the game tree below the board \<open>b\<close> (\<open>m\<close>: O is to move) and succeeds only if
  player \<open>p\<close> can avoid a loss (\<open>w = False\<close>) or force a win (\<open>w = True\<close>) against every
  play of the other side. It stops at the first good move of \<open>p\<close> and at the first
  refutation, so it visits far fewer positions than the search. \<open>good p w v\<close> is what
  the certificate says of the score \<open>v\<close>.
\<close>

fun holds :: "nat \<Rightarrow> nat \<Rightarrow> player \<Rightarrow> bool \<Rightarrow> board \<Rightarrow> bool \<Rightarrow> bool"
  and holdsAny :: "nat \<Rightarrow> nat \<Rightarrow> player \<Rightarrow> bool \<Rightarrow> board list \<Rightarrow> bool \<Rightarrow> bool"
  and holdsAll :: "nat \<Rightarrow> nat \<Rightarrow> player \<Rightarrow> bool \<Rightarrow> board list \<Rightarrow> bool \<Rightarrow> bool"
where
  "holds 0 n p w b m = False"
| "holds (Suc k) n p w b m =
     (if checkWinner b n PlayerO then p = PlayerO
      else if checkWinner b n PlayerX then p = PlayerX
      else if every_truthy b then \<not> w
      else if m then
        (if p = PlayerO then holdsAny k n p w (succs PlayerO b) False
         else holdsAll k n p w (succs PlayerO b) False)
      else
        (if p = PlayerX then holdsAny k n p w (succs PlayerX b) True
         else holdsAll k n p w (succs PlayerX b) True))"
| "holdsAny k n p w [] m = False"
| "holdsAny k n p w (b # bs) m = (if holds k n p w b m then True else holdsAny k n p w bs m)"
| "holdsAll k n p w [] m = True"
| "holdsAll k n p w (b # bs) m = (if holds k n p w b m then holdsAll k n p w bs m else False)"

fun scoresOf :: "nat \<Rightarrow> int \<Rightarrow> bool \<Rightarrow> board list \<Rightarrow> jsnum list" where
  "scoresOf n d m [] = []"
| "scoresOf n d m (b # bs) = score n b d m # scoresOf n d m bs"

definition good :: "player \<Rightarrow> bool \<Rightarrow> jsnum \<Rightarrow> bool" where
  "good p w v = (if p = PlayerO then (if w then Num 0 < v else Num 0 \<le> v)
                 else (if w then v < Num 0 else v \<le> Num 0))"

text \<open>
  \<open>rounded p\<close>: the integer \<open>p\<close> cut to its first 53 bits, as \<open>mulDouble\<close> rounds it.
  \<open>share N k j\<close>: the least \<open>a\<close> with \<open>j * N \<le> a * k\<close>, where the \<open>j\<close>-th of \<open>k\<close> equal
  parts of \<open>0 ..< N\<close> begins.
\<close>

definition rounded :: "nat \<Rightarrow> nat" where
  "rounded p = roundEven p (excess p) * 2 ^ excess p"

definition share :: "nat \<Rightarrow> nat \<Rightarrow> nat \<Rightarrow> nat" where
  "share N k j = (j * N + k - 1) div k"

section \<open>Games\<close>

text \<open>
  A fresh game on a board of side \<open>n\<close>: the state variables as the component initialises
  them, with the board size chosen and the board reset.
\<close>

definition newGame :: "nat \<Rightarrow> game" where
  "newGame n = resetGame (initialState\<lparr>boardSize := n\<rparr>)"

text \<open>The states that clicks on cells of the board reach from a fresh game.\<close>

inductive played :: "nat \<Rightarrow> game \<Rightarrow> bool" for n :: nat where
  played_start: "played n (newGame n)"
| played_click: "played n s \<Longrightarrow> i < length (board s) \<Longrightarrow> played n (handleCellClick s i)"

text \<open>
  The start of a game against the hard opponent: a fresh 3x3 game with the AI mode on
  and the difficulty \<open>hard\<close>.

  \<open>hardGame\<close>: X clicks any cell when it is X's turn; when it is O's turn and the game is
  active, the effect of the component calls \<open>makeAIMove\<close>.
\<close>

definition hardStart :: game where
  "hardStart = (newGame 3)\<lparr>isAIMode := True, aiDifficulty := ''hard''\<rparr>"

inductive hardGame :: "game \<Rightarrow> bool" where
  hard_start: "hardGame hardStart"
| hard_human: "hardGame s \<Longrightarrow> currentPlayer s = PlayerX \<Longrightarrow> i < length (board s) \<Longrightarrow>
                 hardGame (handleCellClick s i)"
| hard_ai: "hardGame s \<Longrightarrow> isAIMode s \<Longrightarrow> currentPlayer s = PlayerO \<Longrightarrow> gameActive s \<Longrightarrow>
              hardGame (makeAIMove u s)"

text \<open>The active state of such a game with board \<open>b\<close> and \<open>p\<close> to move.\<close>

definition hardState :: "board \<Rightarrow> player \<Rightarrow> game" where
  "hardState b p = hardStart\<lparr>board := b, currentPlayer := p\<rparr>"

text \<open>
  X choosing by the search as well: \<open>minimaxChoiceX n b i\<close> says that \<open>i\<close> is an empty
  cell whose one-ply simulation for X (X's mark at \<open>i\<close>, searched at depth 0 with O to
  move) has the least score of all empty cells, the mirror image of \<open>getBestMove\<close>, with
  any tie-break. \<open>searchSelectorX chooseX\<close>: the selector \<open>chooseX\<close> returns such a cell on
  every 3x3 board of the data model on which the game is not over.
\<close>

definition minimaxChoiceX :: "nat \<Rightarrow> board \<Rightarrow> nat \<Rightarrow> bool" where
  "minimaxChoiceX n b i =
     (rd b i = Null \<and>
      list_all (\<lambda>j. score n (js_set (spread b) i (Mark PlayerX)) 0 True
                   \<le> score n (js_set (spread b) j (Mark PlayerX)) 0 True) (emptyCells b))"

definition searchSelectorX :: "(board \<Rightarrow> nat option) \<Rightarrow> bool" where
  "searchSelectorX chooseX =
     (\<forall>b. spec_board b \<and> length b = 9 \<and> \<not> checkWinner b 3 PlayerX \<and>
          \<not> checkWinner b 3 PlayerO \<and> \<not> every_truthy b \<longrightarrow>
          (\<exists>i. chooseX b = Some i \<and> minimaxChoiceX 3 b i))"

text \<open>
  A game between two selectors, played to its end: while the game is active, X clicks the
  cell that \<open>chooseX\<close> returns for the board, and O moves by \<open>makeAIMove\<close> (which the
  component calls when the AI mode is on and it is O's turn). \<open>k\<close> bounds the number of
  moves. The result is the state in which the game is over; it is \<open>None\<close> when the game is
  still active after \<open>k\<close> moves, or when the side to move makes no move.
\<close>

fun selfPlay :: "(board \<Rightarrow> nat option) \<Rightarrow> double \<Rightarrow> nat \<Rightarrow> game \<Rightarrow> game option" where
  "selfPlay chooseX u 0 s = (if gameActive s then None else Some s)"
| "selfPlay chooseX u (Suc k) s =
     (if \<not> gameActive s then Some s
      else if currentPlayer s = PlayerX then
        (case chooseX (board s) of
           None \<Rightarrow> None
         | Some i \<Rightarrow> selfPlay chooseX u k (handleCellClick s i))
      else if isAIMode s then selfPlay chooseX u k (makeAIMove u s)
      else None)"

text \<open>
  The specification lets the hard selector play either side. The component has it for O
  only; for X it is the same search with the two marks exchanged: \<open>getBestMove\<close> on the
  board in which every X is an O and every O an X. (Exchanging the marks negates the
  scores: \<open>neg\<close>.)
\<close>

fun swapMark :: "cell \<Rightarrow> cell" where
  "swapMark (Mark p) = Mark (otherPlayer p)"
| "swapMark Hole = Hole"
| "swapMark Undefined = Undefined"
| "swapMark Null = Null"

definition swapBoard :: "board \<Rightarrow> board" where
  "swapBoard b = map swapMark b"

definition getBestMoveX :: "nat \<Rightarrow> board \<Rightarrow> nat option" where
  "getBestMoveX n b = getBestMove n (swapBoard b)"

fun neg :: "jsnum \<Rightarrow> jsnum" where
  "neg NegInf = PosInf"
| "neg PosInf = NegInf"
| "neg (Num k) = Num (- k)"

text \<open>
  Two games against the hard opponent. In \<open>exampleGame\<close> X clicks the cells 0, 1, 6, 5
  and 8; in \<open>exampleWin\<close> X clicks 0, 1 and 3. Each click of X is answered by
  \<open>makeAIMove\<close>.
\<close>

definition exampleGame :: game where
  "exampleGame =
     handleCellClick (makeAIMove (0, 0) (handleCellClick (makeAIMove (0, 0) (handleCellClick
       (makeAIMove (0, 0) (handleCellClick (makeAIMove (0, 0) (handleCellClick hardStart 0)) 1)) 6)) 5)) 8"


text \<open>The invariant of the states that clicks reach.\<close>

definition played_inv :: "nat \<Rightarrow> game \<Rightarrow> bool" where
  "played_inv n s =
     (boardSize s = n \<and>
      (gameActive s \<longrightarrow> \<not> checkWinner (board s) n PlayerX \<and> \<not> checkWinner (board s) n PlayerO) \<and>
      \<not> (checkWinner (board s) n PlayerX \<and> checkWinner (board s) n PlayerO) \<and>
      (n = 0 \<longrightarrow> board s = []))"

text \<open>The invariants of the two kinds of games.\<close>

definition hard_inv :: "game \<Rightarrow> bool" where
  "hard_inv s =
     (boardSize s = 3 \<and> aiDifficulty s = ''hard'' \<and> spec_board (board s) \<and>
      length (board s) = 9 \<and> \<not> checkWinner (board s) 3 PlayerX \<and>
      (gameActive s \<longrightarrow>
         \<not> checkWinner (board s) 3 PlayerO \<and> \<not> every_truthy (board s) \<and>
         Num 0 \<le> score 3 (board s) 0 (currentPlayer s = PlayerO)) \<and>
      (\<not> gameActive s \<longrightarrow> winnerMsg s = WinsMessage PlayerO \<or> winnerMsg s = DrawMessage))"

definition draw_inv :: "game \<Rightarrow> bool" where
  "draw_inv s =
     (hard_inv s \<and> \<not> checkWinner (board s) 3 PlayerO \<and>
      (gameActive s \<longrightarrow> score 3 (board s) 0 (currentPlayer s = PlayerO) \<le> Num 0) \<and>
      (\<not> gameActive s \<longrightarrow> winnerMsg s = DrawMessage))"

section \<open>Termination of the search\<close>

lemma rd_Null_iff: "rd arr i = Null \<longleftrightarrow> i < length arr \<and> arr ! i = Null"
  by (auto simp: rd_def)

lemma js_set_restore:
  "i < length arr \<Longrightarrow> rd arr i = Null \<Longrightarrow> js_set (js_set arr i v) i Null = arr"
  by (simp add: js_set_def rd_Null_iff list_update_same_conv)

lemma length_js_set_in: "i < length arr \<Longrightarrow> length (js_set arr i v) = length arr"
  by (simp add: js_set_def)

lemma nulls_update_Mark:
  "i < length arr \<Longrightarrow> arr ! i = Null \<Longrightarrow> nulls (arr[i := Mark p]) < nulls arr"
proof (induction arr arbitrary: i)
  case Nil
  then show ?case by simp
next
  case (Cons a arr)
  then show ?case by (cases i) (auto simp: nulls_def)
qed

lemma nulls_js_set_Mark:
  "i < length arr \<Longrightarrow> rd arr i = Null \<Longrightarrow> nulls (js_set arr i (Mark p)) < nulls arr"
  by (simp add: js_set_def rd_Null_iff nulls_update_Mark)

lemma minimax_frame_dom:
  "minimax_maxLoop_minLoop_dom (Inl (n, arr, d, m)) \<Longrightarrow> snd (minimax n arr d m) = arr"
  "minimax_maxLoop_minLoop_dom (Inr (Inl (n, i, arr, d, b))) \<Longrightarrow> snd (maxLoop n i arr d b) = arr"
  "minimax_maxLoop_minLoop_dom (Inr (Inr (n, i, arr, d, b))) \<Longrightarrow> snd (minLoop n i arr d b) = arr"
proof (induct rule: minimax_maxLoop_minLoop.pinduct)
  case (1 boardSize arr depth isMaximizing)
  then show ?case by (simp add: minimax.psimps)
next
  case (2 boardSize i arr depth best)
  show ?case
  proof (cases "i < length arr \<and> rd arr i = Null")
    case True
    obtain x y where xy: "minimax boardSize (js_set arr i (Mark PlayerO)) (depth + 1) False = (x, y)"
      by (cases "minimax boardSize (js_set arr i (Mark PlayerO)) (depth + 1) False")
    with 2(2) True have y: "y = js_set arr i (Mark PlayerO)" by simp
    have "snd (maxLoop boardSize (i + 1) (js_set y i Null) depth (max best x)) = js_set y i Null"
      using 2(3)[of x y] True xy by simp
    with True xy y 2(1) show ?thesis
      by (simp add: maxLoop.psimps js_set_restore)
  next
    case False
    with 2(1,4) show ?thesis by (auto simp: maxLoop.psimps)
  qed
next
  case (3 boardSize i arr depth best)
  show ?case
  proof (cases "i < length arr \<and> rd arr i = Null")
    case True
    obtain x y where xy: "minimax boardSize (js_set arr i (Mark PlayerX)) (depth + 1) True = (x, y)"
      by (cases "minimax boardSize (js_set arr i (Mark PlayerX)) (depth + 1) True")
    with 3(2) True have y: "y = js_set arr i (Mark PlayerX)" by simp
    have "snd (minLoop boardSize (i + 1) (js_set y i Null) depth (min best x)) = js_set y i Null"
      using 3(3)[of x y] True xy by simp
    with True xy y 3(1) show ?thesis
      by (simp add: minLoop.psimps js_set_restore)
  next
    case False
    with 3(1,4) show ?thesis by (auto simp: minLoop.psimps)
  qed
qed

termination minimax
proof (relation "inv_image (less_than <*lex*> less_than) (\<lambda>x. case x of
     Inl (n, arr, d, m) \<Rightarrow> (nulls arr, length arr + 1)
   | Inr (Inl (n, i, arr, d, b)) \<Rightarrow> (nulls arr, length arr - i)
   | Inr (Inr (n, i, arr, d, b)) \<Rightarrow> (nulls arr, length arr - i))", goal_cases)
  case 1
  show ?case by (intro wf_inv_image wf_lex_prod wf_less_than)
next
  case (2 boardSize arr depth isMaximizing)
  then show ?case by simp
next
  case (3 boardSize arr depth isMaximizing)
  then show ?case by simp
next
  case (4 boardSize i arr depth best)
  then show ?case by (simp add: nulls_js_set_Mark)
next
  case (5 boardSize i arr depth best x y)
  from 5(3,4) have "y = js_set arr i (Mark PlayerO)"
    using minimax_frame_dom(1) by (metis snd_conv)
  with 5(1,2) have "js_set y i Null = arr" by (simp add: js_set_restore)
  with 5(1) show ?case by simp
next
  case (6 boardSize i arr depth best)
  then show ?case by simp
next
  case (7 boardSize i arr depth best)
  then show ?case by (simp add: nulls_js_set_Mark)
next
  case (8 boardSize i arr depth best x y)
  from 8(3,4) have "y = js_set arr i (Mark PlayerX)"
    using minimax_frame_dom(1) by (metis snd_conv)
  with 8(1,2) have "js_set y i Null = arr" by (simp add: js_set_restore)
  with 8(1) show ?case by simp
next
  case (9 boardSize i arr depth best)
  then show ?case by simp
qed


declare minimax.simps [simp del] maxLoop.simps [simp del] minLoop.simps [simp del]


section \<open>The search restores the array\<close>

lemma frame_all:
  "snd (minimax n arr d m) = arr"
  "snd (maxLoop n i arr d b) = arr"
  "snd (minLoop n i arr d b) = arr"
proof (induct n arr d m and n i arr d b and n i arr d b rule: minimax_maxLoop_minLoop.induct)
  case (1 boardSize arr depth isMaximizing)
  then show ?case by (subst minimax.simps) simp
next
  case (2 boardSize i arr depth best)
  then show ?case
    by (subst maxLoop.simps) (auto simp: js_set_restore split: prod.splits dest: sym)
next
  case (3 boardSize i arr depth best)
  then show ?case
    by (subst minLoop.simps) (auto simp: js_set_restore split: prod.splits dest: sym)
qed

lemma minimax_frame: "snd (minimax n arr d m) = arr"
  by (rule frame_all)

lemma emptyCells_from: "emptyCells arr = filter (\<lambda>j. rd arr j = Null) [0..<length arr]"
  by (simp add: emptyCells_def)

lemma maxLoop_fold:
  "maxLoop n i arr d best =
     (foldl max best (map (\<lambda>j. score n (js_set arr j (Mark PlayerO)) (d + 1) False)
                          (filter (\<lambda>j. rd arr j = Null) [i..<length arr])), arr)"
proof (induction "length arr - i" arbitrary: i best)
  case 0
  then show ?case by (simp add: maxLoop.simps)
next
  case (Suc k)
  then have i: "i < length arr" and k: "k = length arr - (i + 1)" by simp_all
  have upt: "[i..<length arr] = i # [i + 1..<length arr]"
    using i by (simp add: upt_conv_Cons)
  show ?case
  proof (cases "rd arr i = Null")
    case True
    have m: "minimax n (js_set arr i (Mark PlayerO)) (d + 1) False =
             (score n (js_set arr i (Mark PlayerO)) (d + 1) False, js_set arr i (Mark PlayerO))"
      by (simp add: score_def prod_eq_iff minimax_frame)
    show ?thesis
      using True i Suc(1)[OF k] by (subst maxLoop.simps) (simp add: m js_set_restore upt)
  next
    case False
    then show ?thesis
      using i Suc(1)[OF k] by (subst maxLoop.simps) (simp add: upt)
  qed
qed

lemma minLoop_fold:
  "minLoop n i arr d best =
     (foldl min best (map (\<lambda>j. score n (js_set arr j (Mark PlayerX)) (d + 1) True)
                          (filter (\<lambda>j. rd arr j = Null) [i..<length arr])), arr)"
proof (induction "length arr - i" arbitrary: i best)
  case 0
  then show ?case by (simp add: minLoop.simps)
next
  case (Suc k)
  then have i: "i < length arr" and k: "k = length arr - (i + 1)" by simp_all
  have upt: "[i..<length arr] = i # [i + 1..<length arr]"
    using i by (simp add: upt_conv_Cons)
  show ?case
  proof (cases "rd arr i = Null")
    case True
    have m: "minimax n (js_set arr i (Mark PlayerX)) (d + 1) True =
             (score n (js_set arr i (Mark PlayerX)) (d + 1) True, js_set arr i (Mark PlayerX))"
      by (simp add: score_def prod_eq_iff minimax_frame)
    show ?thesis
      using True i Suc(1)[OF k] by (subst minLoop.simps) (simp add: m js_set_restore upt)
  next
    case False
    then show ?thesis
      using i Suc(1)[OF k] by (subst minLoop.simps) (simp add: upt)
  qed
qed

lemma score_unfold:
  "score n arr d m =
     (if checkWinner arr n PlayerO then Num (10 - d)
      else if checkWinner arr n PlayerX then Num (d - 10)
      else if every_truthy arr then Num 0
      else if m then foldl max NegInf
             (map (\<lambda>j. score n (js_set arr j (Mark PlayerO)) (d + 1) False) (emptyCells arr))
      else foldl min PosInf
             (map (\<lambda>j. score n (js_set arr j (Mark PlayerX)) (d + 1) True) (emptyCells arr)))"
  unfolding score_def[of n arr d m]
  by (subst minimax.simps) (simp add: maxLoop_fold minLoop_fold emptyCells_def)



text \<open>
  C7. For every array, depth and flag, \<open>minimax\<close> leaves the array as it received it:
  each mark written during the exploration is taken back before the return. So do its
  two loops, from every position, and the branches of a loop are independent: the loop
  returns the running maximum (minimum) of the scores of the boards that differ from the
  array it was given in one cell only.
\<close>

theorem minimax_restores_board:
  "snd (minimax n arr depth isMaximizing) = arr \<and>
   maxLoop n i arr depth best =
     (foldl max best
        (map (\<lambda>j. fst (minimax n (js_set arr j (Mark PlayerO)) (depth + 1) False))
             (filter (\<lambda>j. rd arr j = Null) [i..<length arr])), arr) \<and>
   minLoop n i arr depth best =
     (foldl min best
        (map (\<lambda>j. fst (minimax n (js_set arr j (Mark PlayerX)) (depth + 1) True))
             (filter (\<lambda>j. rd arr j = Null) [i..<length arr])), arr)"
  by (simp add: frame_all maxLoop_fold minLoop_fold score_def)

section \<open>Reads and writes of arrays\<close>

lemma rd_spread [simp]: "rd (spread arr) i = rd arr i"
  by (auto simp: rd_def spread_def)

lemma length_spread [simp]: "length (spread arr) = length arr"
  by (simp add: spread_def)

lemma rd_js_set_Mark:
  "rd (js_set arr i (Mark p)) j = (if j = i then Mark p else rd arr j)"
  by (auto simp: rd_def js_set_def nth_append)

lemma length_js_set: "length (js_set arr i v) = max (length arr) (i + 1)"
  by (auto simp: js_set_def)

lemma truthy_rd_iff: "truthy (rd arr i) \<longleftrightarrow> (\<exists>p. rd arr i = Mark p)"
  by (cases "rd arr i") simp_all

lemma replicate9: "replicate 9 c = [c, c, c, c, c, c, c, c, c]"
  by (simp add: numeral_eq_Suc)

section \<open>The winner check against the lines of the specification\<close>

lemma checkLine_occupies:
  "checkLine arr sz p start step = spec_occupies arr p (map (\<lambda>i. start + i * step) [0..<sz])"
  by (simp add: checkLine_def spec_occupies_def list_all_iff)

lemma checkLine_guard:
  assumes "0 < sz" and "checkLine arr sz p start step"
  shows "truthy (rd arr start)"
proof -
  from assms(1) have "(0::nat) \<in> set [0..<sz]" by simp
  with assms(2) have "rd arr (start + 0 * step) = Mark p"
    unfolding checkLine_def list_all_iff by (metis (no_types, lifting) imageI set_map)
  then show ?thesis by simp
qed

lemma anti_index:
  fixes k sz :: nat
  assumes "k < sz"
  shows "(sz - 1) + k * (sz - 1) = k * sz + (sz - 1 - k)"
proof -
  note assms
  then obtain m where "sz = Suc m" and "k \<le> m" by (cases sz) auto
  then show ?thesis by (simp add: algebra_simps)
qed

lemma checkWinner_lines:
  assumes "0 < sz"
  shows "checkWinner arr sz p = spec_hasLine arr sz p"
proof -
  have g: "\<And>start step. (truthy (rd arr start) \<and> checkLine arr sz p start step)
             = checkLine arr sz p start step"
    using checkLine_guard[OF assms] by blast
  have rows: "list_ex (\<lambda>r. checkLine arr sz p (r * sz) 1) [0..<sz]
      = list_ex (spec_occupies arr p) (map (\<lambda>r. map (\<lambda>c. r * sz + c) [0..<sz]) [0..<sz])"
    by (simp add: checkLine_occupies list_ex_iff)
  have cols: "list_ex (\<lambda>c. checkLine arr sz p c sz) [0..<sz]
      = list_ex (spec_occupies arr p) (map (\<lambda>c. map (\<lambda>r. r * sz + c) [0..<sz]) [0..<sz])"
    by (simp add: checkLine_occupies list_ex_iff add.commute)
  have diag: "checkLine arr sz p 0 (sz + 1) = spec_occupies arr p (map (\<lambda>k. k * sz + k) [0..<sz])"
    by (simp add: checkLine_occupies add.commute)
  have "map (\<lambda>i. (sz - 1) + i * (sz - 1)) [0..<sz] = map (\<lambda>k. k * sz + (sz - 1 - k)) [0..<sz]"
  proof (rule map_cong[OF refl])
    fix k assume "k \<in> set [0..<sz]"
    then have "k < sz" by simp
    then show "(sz - 1) + k * (sz - 1) = k * sz + (sz - 1 - k)" by (rule anti_index)
  qed
  then have anti: "checkLine arr sz p (sz - 1) (sz - 1)
      = spec_occupies arr p (map (\<lambda>k. k * sz + (sz - 1 - k)) [0..<sz])"
    by (simp only: checkLine_occupies)
  show ?thesis
    unfolding checkWinner_def g
    unfolding rows cols diag anti spec_hasLine_def spec_lines_def
    using assms by auto
qed

lemma upt3: "[0..<3] = [0, 1, 2]"
  by (simp add: upt_rec)

lemma spec_lines3:
  "spec_lines 3 = [[0,1,2],[3,4,5],[6,7,8],[0,3,6],[1,4,7],[2,5,8],[0,4,8],[2,4,6]]"
  by (simp add: spec_lines_def upt3)

lemma rd_eq_Mark: "rd arr i = Mark p \<longleftrightarrow> i < length arr \<and> arr ! i = Mark p"
  by (auto simp: rd_def)

lemma checkWinner3:
  "checkWinner [a, b, c, d, e, f, g, h, i] 3 p =
     (a = Mark p \<and> b = Mark p \<and> c = Mark p \<or>
      d = Mark p \<and> e = Mark p \<and> f = Mark p \<or>
      g = Mark p \<and> h = Mark p \<and> i = Mark p \<or>
      a = Mark p \<and> d = Mark p \<and> g = Mark p \<or>
      b = Mark p \<and> e = Mark p \<and> h = Mark p \<or>
      c = Mark p \<and> f = Mark p \<and> i = Mark p \<or>
      a = Mark p \<and> e = Mark p \<and> i = Mark p \<or>
      c = Mark p \<and> e = Mark p \<and> g = Mark p)"
  by (simp add: checkWinner_lines spec_hasLine_def spec_lines3 spec_occupies_def rd_eq_Mark)


lemma occupies_mono:
  assumes "spec_occupies (js_set (spread arr) i (Mark p)) q line" and "p \<noteq> q"
  shows "spec_occupies arr q line"
  using assms unfolding spec_occupies_def list_all_iff
  by (auto simp: rd_js_set_Mark split: if_splits)

lemma checkWinner_zero: "checkWinner arr 0 p = truthy (rd arr 0)"
  by (simp add: checkWinner_def checkLine_def)

lemma no_foreign_line:
  assumes "checkWinner (js_set (spread arr) i (Mark p)) n q" and "p \<noteq> q" and "0 < n"
  shows "checkWinner arr n q"
  using assms occupies_mono[of arr i p q]
  by (auto simp: checkWinner_lines spec_hasLine_def list_ex_iff)

lemma checkWinner_replicate_Null: "\<not> checkWinner (replicate k Null) n p"
proof (cases "n = 0")
  case True
  then show ?thesis by (simp add: checkWinner_zero rd_def)
next
  case False
  have "\<not> spec_occupies (replicate k Null) p line" if "line \<in> set (spec_lines n)" for line
  proof -
    from that False have "line \<noteq> []" by (auto simp: spec_lines_def)
    then obtain i where "i \<in> set line" by (cases line) auto
    moreover have "rd (replicate k Null) i \<noteq> Mark p" by (simp add: rd_def)
    ultimately show ?thesis by (auto simp: spec_occupies_def list_all_iff)
  qed
  with False show ?thesis by (auto simp: checkWinner_lines spec_hasLine_def list_ex_iff)
qed

text \<open>
  C4. On a board of side \<open>sz > 0\<close>, \<open>checkWinner\<close> reports the player exactly when the
  player occupies one of the candidate lines; there are \<open>2 * sz + 2\<close> of them (rows,
  columns, main diagonal, anti-diagonal, scanned in this order), each of \<open>sz\<close> cells.
\<close>

theorem checkWinner_iff_line:
  assumes "0 < sz"
  shows "checkWinner arr sz p = list_ex (spec_occupies arr p) (spec_lines sz) \<and>
         length (spec_lines sz) = 2 * sz + 2 \<and>
         list_all (\<lambda>line. length line = sz) (spec_lines sz)"
proof -
  have "length (spec_lines sz) = 2 * sz + 2"
    by (simp add: spec_lines_def)
  moreover have "list_all (\<lambda>line. length line = sz) (spec_lines sz)"
    by (auto simp: spec_lines_def list_all_iff)
  ultimately show ?thesis
    using checkWinner_lines[OF assms, of arr p] by (simp add: spec_hasLine_def)
qed

theorem checkWinner_iff_line_witness:
  "(0::nat) < 3 \<and>
   checkWinner [Mark PlayerO, Null, Mark PlayerX, Null, Mark PlayerX, Mark PlayerO,
                Mark PlayerX, Null, Null] 3 PlayerX \<and>
   list_ex (spec_occupies [Mark PlayerO, Null, Mark PlayerX, Null, Mark PlayerX, Mark PlayerO,
                Mark PlayerX, Null, Null] PlayerX) (spec_lines 3) \<and>
   length (spec_lines 3) = 8"
  using checkWinner_iff_line[of 3 "[Mark PlayerO, Null, Mark PlayerX, Null, Mark PlayerX,
     Mark PlayerO, Mark PlayerX, Null, Null]" PlayerX]
  by (simp add: checkWinner3)

section \<open>Clicks\<close>

lemma board_handleCellClick:
  "board (handleCellClick s idx) =
     (if \<not> gameActive s \<or> truthy (rd (board s) idx) then board s
      else js_set (spread (board s)) idx (Mark (currentPlayer s)))"
  by (simp add: handleCellClick_def Let_def)

section \<open>Draws\<close>

lemma every_truthy_occupied:
  "Hole \<notin> set arr \<Longrightarrow> every_truthy arr = list_all spec_occupied arr"
proof -
  have "spec_occupied c = truthy c" for c
    by (cases c) (simp_all add: spec_occupied_def)
  moreover assume "Hole \<notin> set arr"
  ultimately show ?thesis
    unfolding every_truthy_def list_all_iff by auto
qed

text \<open>
  C10. On a board without holes and of side \<open>n > 0\<close>, \<open>isDraw\<close> holds exactly when every
  cell is occupied and neither player occupies a line; the full board
  X O X / O X O / O X O is a draw.
\<close>

theorem isDraw_iff_full_no_line:
  assumes "Hole \<notin> set arr" and "0 < n"
  shows "isDraw n arr = spec_isDraw n arr \<and>
         isDraw 3 [Mark PlayerX, Mark PlayerO, Mark PlayerX,
                   Mark PlayerO, Mark PlayerX, Mark PlayerO,
                   Mark PlayerO, Mark PlayerX, Mark PlayerO]"
proof
  show "isDraw n arr = spec_isDraw n arr"
    using assms by (simp add: isDraw_def spec_isDraw_def every_truthy_occupied checkWinner_lines)
  show "isDraw 3 [Mark PlayerX, Mark PlayerO, Mark PlayerX,
                   Mark PlayerO, Mark PlayerX, Mark PlayerO,
                   Mark PlayerO, Mark PlayerX, Mark PlayerO]"
    by (simp add: isDraw_def checkWinner3 every_truthy_def)
qed

theorem isDraw_iff_full_no_line_witness:
  "Hole \<notin> set [Mark PlayerX, Mark PlayerO, Mark PlayerX,
                 Mark PlayerO, Mark PlayerX, Mark PlayerO,
                 Mark PlayerO, Mark PlayerX, Mark PlayerO] \<and> (0::nat) < 3 \<and>
   spec_isDraw 3 [Mark PlayerX, Mark PlayerO, Mark PlayerX,
                  Mark PlayerO, Mark PlayerX, Mark PlayerO,
                  Mark PlayerO, Mark PlayerX, Mark PlayerO]"
  using isDraw_iff_full_no_line[of "[Mark PlayerX, Mark PlayerO, Mark PlayerX,
                  Mark PlayerO, Mark PlayerX, Mark PlayerO,
                  Mark PlayerO, Mark PlayerX, Mark PlayerO]" 3]
  by auto

section \<open>No two winners\<close>

lemma played_inv_start: "played_inv n (newGame n)"
  by (simp add: played_inv_def newGame_def resetGame_def initialState_def checkWinner_replicate_Null)

lemma played_inv_click:
  assumes inv: "played_inv n s" and i: "i < length (board s)"
  shows "played_inv n (handleCellClick s i)"
proof (cases "\<not> gameActive s \<or> truthy (rd (board s) i)")
  case True
  with inv show ?thesis by (simp add: handleCellClick_def)
next
  case False
  from inv i have n: "0 < n" by (auto simp: played_inv_def)
  from inv have bs: "boardSize s = n" by (simp add: played_inv_def)
  let ?p = "currentPlayer s"
  let ?q = "otherPlayer ?p"
  let ?next = "js_set (spread (board s)) i (Mark ?p)"
  have pq: "?p \<noteq> ?q" by (simp add: otherPlayer_def)
  from inv False have "\<not> checkWinner (board s) n ?q" by (cases ?q) (auto simp: played_inv_def)
  with no_foreign_line[OF _ pq n] have q: "\<not> checkWinner ?next n ?q" by blast
  have xo: "\<And>P. P PlayerX \<and> P PlayerO \<longleftrightarrow> P ?p \<and> P ?q"
    by (cases ?p) (auto simp: otherPlayer_def)
  from n have len: "?next \<noteq> []" using i by (auto simp: js_set_def spread_def)
  show ?thesis
    using False q bs n len
    unfolding played_inv_def handleCellClick_def Let_def
    by (cases ?p) (auto simp: otherPlayer_def isDraw_def)
qed

lemma played_invariant: "played n s \<Longrightarrow> played_inv n s"
  by (induction rule: played.induct) (simp_all add: played_inv_start played_inv_click)

text \<open>
  C9. In every state that clicks on cells of the board reach from a fresh game of any
  side \<open>n\<close>, X and O do not both have a complete line.
\<close>

theorem played_never_both_win:
  assumes "played n s"
  shows "\<not> (checkWinner (board s) n PlayerX \<and> checkWinner (board s) n PlayerO)"
  using played_invariant[OF assms] by (simp add: played_inv_def)

theorem played_never_both_win_witness:
  "played 3 (handleCellClick (newGame 3) 4) \<and>
   \<not> (checkWinner (board (handleCellClick (newGame 3) 4)) 3 PlayerX \<and>
      checkWinner (board (handleCellClick (newGame 3) 4)) 3 PlayerO)"
proof -
  have "4 < length (board (newGame 3))"
    by (simp add: newGame_def resetGame_def)
  then have p: "played 3 (handleCellClick (newGame 3) 4)"
    by (rule played_click[OF played_start])
  with played_never_both_win[OF p] show ?thesis by simp
qed

section \<open>Clicks that the rules do not allow\<close>

lemma every_truthy_replicate_Null: "every_truthy (replicate k Null) \<longleftrightarrow> k = 0"
  by (cases k) (simp_all add: every_truthy_def)

lemma played_active_open:
  assumes "played n s" and "0 < n" and "gameActive s"
  shows "\<not> every_truthy (board s)"
  using assms
proof (induction rule: played.induct)
  case played_start
  then show ?case
    by (simp add: newGame_def resetGame_def initialState_def every_truthy_replicate_Null)
next
  case (played_click s i)
  let ?s' = "handleCellClick s i"
  show ?case
  proof (cases "\<not> gameActive s \<or> truthy (rd (board s) i)")
    case True
    then have "?s' = s" by (simp add: handleCellClick_def)
    with played_click show ?thesis by simp
  next
    case False
    have "played n ?s'" using played_click.hyps by (rule played.played_click)
    then have inv: "played_inv n ?s'" by (rule played_invariant)
    from played_invariant[OF played_click.hyps(1)] have bs: "boardSize s = n"
      by (simp add: played_inv_def)
    from inv played_click.prems(2)
    have nw: "\<not> checkWinner (board ?s') n PlayerX" "\<not> checkWinner (board ?s') n PlayerO"
      by (simp_all add: played_inv_def)
    from False played_click.prems(2) have "\<not> isDraw n (board ?s')"
      unfolding handleCellClick_def Let_def bs by (auto split: if_splits)
    with nw show ?thesis by (simp add: isDraw_def)
  qed
qed

lemma played_terminal:
  assumes "played n s" and "0 < n"
    and "checkWinner (board s) n PlayerX \<or> checkWinner (board s) n PlayerO \<or> isDraw n (board s)"
  shows "\<not> gameActive s"
  using played_invariant[OF assms(1)] played_active_open[OF assms(1,2)] assms(3)
  by (auto simp: played_inv_def isDraw_def)

lemma truthy_occupied: "i < length b \<Longrightarrow> truthy (rd b i) = spec_occupied (b ! i)"
  by (cases "b ! i") (simp_all add: rd_def spec_occupied_def)

lemma played_length: "played n s \<Longrightarrow> length (board s) = n * n"
proof (induction rule: played.induct)
  case played_start
  show ?case by (simp add: newGame_def resetGame_def initialState_def)
next
  case (played_click s i)
  then show ?case by (simp add: board_handleCellClick length_js_set length_spread)
qed

lemma played_foldl:
  "played n s \<Longrightarrow> \<forall>i\<in>set cells. i < n * n \<Longrightarrow> played n (foldl handleCellClick s cells)"
proof (induction cells arbitrary: s)
  case Nil
  then show ?case by simp
next
  case (Cons i cells)
  from Cons.prems have "i < length (board s)" by (simp add: played_length)
  with Cons.prems(1) have "played n (handleCellClick s i)" by (rule played_click)
  with Cons show ?case by simp
qed

lemmas click_simps = handleCellClick_def newGame_def resetGame_def initialState_def rd_def
  js_set_def spread_def checkWinner3 isDraw_def every_truthy_def otherPlayer_def replicate9 Let_def

text \<open>
  C1, as stated, fails. After X's click on cell 0 of a fresh 3x3 game the cell is occupied;
  the specification's \<open>applyMove\<close> fails there with \<open>IllegalMove\<close>, but the call
  \<open>handleCellClick(0)\<close> returns, with the state as it was: the click is ignored, and no
  error reaches the caller.
\<close>

theorem handleCellClick_occupied_counterexample:
  "board (handleCellClick (newGame 3) 0) =
     [Mark PlayerX, Null, Null, Null, Null, Null, Null, Null, Null] \<and>
   currentPlayer (handleCellClick (newGame 3) 0) = PlayerO \<and>
   gameActive (handleCellClick (newGame 3) 0) \<and>
   spec_applyMove 3 (board (handleCellClick (newGame 3) 0)) 0 PlayerO = Inl IllegalMove \<and>
   clickResult (handleCellClick (newGame 3) 0) 0 = Inr (handleCellClick (newGame 3) 0) \<and>
   clickResult (handleCellClick (newGame 3) 0) 0 \<noteq> Inl IllegalMove"
proof -
  have s: "handleCellClick (newGame 3) 0 =
             (newGame 3)\<lparr>board := [Mark PlayerX, Null, Null, Null, Null, Null, Null, Null, Null],
                         currentPlayer := PlayerO\<rparr>"
    by (simp add: handleCellClick_def newGame_def resetGame_def initialState_def rd_def
        js_set_def spread_def checkWinner3 isDraw_def every_truthy_def otherPlayer_def
        replicate9 Let_def)
  show ?thesis
    unfolding s
    by (simp add: spec_applyMove_def spec_occupied_def clickResult_def handleCellClick_def rd_def
        newGame_def resetGame_def initialState_def)
qed

text \<open>
  C1, amended. For an index of a cell of the board: a click on an occupied cell, or when
  the game is over, returns without an error and leaves the state, the board included, as
  it was. The game is over (\<open>gameActive\<close> is false) in every state reached by clicks from
  a fresh game whose board has a line of a player or is a draw.
\<close>

theorem handleCellClick_ignores_illegal:
  assumes "idx < length (board s)"
  shows "(\<not> gameActive s \<or> spec_occupied (board s ! idx) \<longrightarrow> clickResult s idx = Inr s) \<and>
         (played n s \<and> 0 < n \<and>
          (checkWinner (board s) n PlayerX \<or> checkWinner (board s) n PlayerO \<or>
           isDraw n (board s)) \<longrightarrow> clickResult s idx = Inr s)"
proof -
  have a: "clickResult s idx = Inr s" if "\<not> gameActive s \<or> spec_occupied (board s ! idx)"
    using that truthy_occupied[OF assms] by (auto simp: clickResult_def handleCellClick_def)
  have b: "clickResult s idx = Inr s"
    if "played n s \<and> 0 < n \<and>
          (checkWinner (board s) n PlayerX \<or> checkWinner (board s) n PlayerO \<or>
           isDraw n (board s))"
  proof -
    from that have "\<not> gameActive s" using played_terminal[of n s] by blast
    then show ?thesis by (simp add: a)
  qed
  from a b show ?thesis by blast
qed

theorem handleCellClick_ignores_illegal_witness:
  "spec_occupied (board (handleCellClick (newGame 3) 0) ! 0) \<and>
   clickResult (handleCellClick (newGame 3) 0) 0 = Inr (handleCellClick (newGame 3) 0) \<and>
   played 3 (foldl handleCellClick (newGame 3) [0, 3, 1, 4, 2]) \<and>
   board (foldl handleCellClick (newGame 3) [0, 3, 1, 4, 2]) =
     [Mark PlayerX, Mark PlayerX, Mark PlayerX, Mark PlayerO, Mark PlayerO, Null, Null, Null, Null] \<and>
   checkWinner (board (foldl handleCellClick (newGame 3) [0, 3, 1, 4, 2])) 3 PlayerX \<and>
   clickResult (foldl handleCellClick (newGame 3) [0, 3, 1, 4, 2]) 8 =
     Inr (foldl handleCellClick (newGame 3) [0, 3, 1, 4, 2])"
proof -
  let ?s = "handleCellClick (newGame 3) 0"
  let ?w = "foldl handleCellClick (newGame 3) [0, 3, 1, 4, 2]"
  have bs: "board ?s = [Mark PlayerX, Null, Null, Null, Null, Null, Null, Null, Null]"
    by (simp add: click_simps)
  have bw: "board ?w =
     [Mark PlayerX, Mark PlayerX, Mark PlayerX, Mark PlayerO, Mark PlayerO, Null, Null, Null, Null]"
    by (simp add: click_simps)
  have occ: "spec_occupied (board ?s ! 0)" unfolding bs by (simp add: spec_occupied_def)
  have pw: "played 3 ?w" by (rule played_foldl[OF played_start]) simp
  have win: "checkWinner (board ?w) 3 PlayerX" unfolding bw by (simp add: checkWinner3)
  have ls: "0 < length (board ?s)" unfolding bs by simp
  have lw: "8 < length (board ?w)" unfolding bw by simp
  from handleCellClick_ignores_illegal[OF ls, of 3] occ
  have a: "clickResult ?s 0 = Inr ?s" by blast
  have three: "(0::nat) < 3" by simp
  from handleCellClick_ignores_illegal[OF lw, of 3] pw win three
  have b: "clickResult ?w 8 = Inr ?w" by blast
  from occ a pw bw win b show ?thesis by blast
qed

section \<open>Running maximum and minimum\<close>

lemma foldl_max_ge_iff:
  fixes b :: "'a::linorder"
  shows "c \<le> foldl max b xs \<longleftrightarrow> c \<le> b \<or> (\<exists>x\<in>set xs. c \<le> x)"
  by (induction xs arbitrary: b) (auto simp: le_max_iff_disj)

lemma foldl_max_le_iff:
  fixes b :: "'a::linorder"
  shows "foldl max b xs \<le> c \<longleftrightarrow> b \<le> c \<and> (\<forall>x\<in>set xs. x \<le> c)"
  by (induction xs arbitrary: b) auto

lemma foldl_min_le_iff:
  fixes b :: "'a::linorder"
  shows "foldl min b xs \<le> c \<longleftrightarrow> b \<le> c \<or> (\<exists>x\<in>set xs. x \<le> c)"
  by (induction xs arbitrary: b) (auto simp: min_le_iff_disj)

lemma foldl_min_ge_iff:
  fixes b :: "'a::linorder"
  shows "c \<le> foldl min b xs \<longleftrightarrow> c \<le> b \<and> (\<forall>x\<in>set xs. c \<le> x)"
  by (induction xs arbitrary: b) auto

lemma foldl_max_mem:
  fixes b :: "'a::linorder"
  shows "foldl max b xs = b \<or> foldl max b xs \<in> set xs"
  by (induction xs arbitrary: b) (auto simp: max_def)

lemma foldl_min_mem:
  fixes b :: "'a::linorder"
  shows "foldl min b xs = b \<or> foldl min b xs \<in> set xs"
  by (induction xs arbitrary: b) (auto simp: min_def)

lemma jsnum_less_simps [simp]:
  "NegInf < Num k" "Num k < PosInf" "NegInf < PosInf" "Num a < Num b \<longleftrightarrow> a < b"
  "\<not> x < NegInf" "\<not> PosInf < x"
  by (cases x; auto simp: less_jsnum_def)+

lemma NegInf_least [simp]: "NegInf \<le> (x::jsnum)"
  by simp

lemma PosInf_greatest [simp]: "(x::jsnum) \<le> PosInf"
  by (cases x) simp_all

lemma foldl_max_NegInf_Max:
  "xs \<noteq> [] \<Longrightarrow> foldl max NegInf xs = Max (set xs)"
proof -
  assume ne: "xs \<noteq> []"
  have "foldl max NegInf xs \<in> set xs"
  proof -
    from ne obtain x where "x \<in> set xs" by (cases xs) auto
    then have "x \<le> foldl max NegInf xs" by (auto simp: foldl_max_ge_iff)
    show ?thesis
    proof (rule ccontr)
      assume "foldl max NegInf xs \<notin> set xs"
      with foldl_max_mem[of NegInf xs] have "foldl max NegInf xs = NegInf" by simp
      then have "\<forall>y\<in>set xs. y \<le> NegInf" using foldl_max_le_iff[of NegInf xs NegInf] by simp
      then have "\<forall>y\<in>set xs. y = NegInf" by (auto intro: antisym)
      with \<open>x \<in> set xs\<close> \<open>foldl max NegInf xs = NegInf\<close> \<open>foldl max NegInf xs \<notin> set xs\<close>
      show False by auto
    qed
  qed
  moreover have "\<forall>y\<in>set xs. y \<le> foldl max NegInf xs" by (auto simp: foldl_max_ge_iff)
  ultimately show ?thesis by (intro Max_eqI[symmetric]) auto
qed

lemma foldl_min_PosInf_Min:
  "xs \<noteq> [] \<Longrightarrow> foldl min PosInf xs = Min (set xs)"
proof -
  assume ne: "xs \<noteq> []"
  have "foldl min PosInf xs \<in> set xs"
  proof -
    from ne obtain x where "x \<in> set xs" by (cases xs) auto
    show ?thesis
    proof (rule ccontr)
      assume "foldl min PosInf xs \<notin> set xs"
      with foldl_min_mem[of PosInf xs] have "foldl min PosInf xs = PosInf" by simp
      then have "\<forall>y\<in>set xs. PosInf \<le> y" using foldl_min_ge_iff[of PosInf PosInf xs] by simp
      then have "\<forall>y\<in>set xs. y = PosInf" by (auto intro: antisym)
      with \<open>x \<in> set xs\<close> \<open>foldl min PosInf xs = PosInf\<close> \<open>foldl min PosInf xs \<notin> set xs\<close>
      show False by auto
    qed
  qed
  moreover have "\<forall>y\<in>set xs. foldl min PosInf xs \<le> y" by (auto simp: foldl_min_le_iff)
  ultimately show ?thesis by (intro Min_eqI[symmetric]) auto
qed


section \<open>Boards of the data model\<close>

lemma spec_board_spread: "spec_board arr \<Longrightarrow> spread arr = arr"
  unfolding spec_board_def spread_def list_all_iff
  by (induction arr) (auto simp: spec_occupied_def)

lemma spec_board_rd: "spec_board arr \<Longrightarrow> i < length arr \<Longrightarrow> rd arr i = arr ! i"
proof -
  assume "spec_board arr" and i: "i < length arr"
  then have "arr ! i = Null \<or> spec_occupied (arr ! i)"
    by (auto simp: spec_board_def list_all_iff)
  then have "arr ! i \<noteq> Hole" by (auto simp: spec_occupied_def)
  with i show ?thesis by (simp add: rd_def)
qed

lemma spec_board_update:
  "spec_board arr \<Longrightarrow> spec_board (arr[i := Mark p])"
  unfolding spec_board_def list_all_iff
  by (auto simp: spec_occupied_def dest!: set_update_subset_insert[THEN subsetD])

lemma js_set_in: "i < length arr \<Longrightarrow> js_set arr i v = arr[i := v]"
  by (simp add: js_set_def)

lemma emptyCells_iff: "i \<in> set (emptyCells arr) \<longleftrightarrow> rd arr i = Null"
  by (auto simp: emptyCells_def rd_Null_iff)

lemma spec_board_not_full:
  assumes "spec_board arr" and "\<not> every_truthy arr"
  shows "emptyCells arr \<noteq> []"
proof -
  from assms(2) obtain c where c: "c \<in> set arr" "c \<noteq> Hole" "\<not> truthy c"
    by (auto simp: every_truthy_def list_all_iff)
  with assms(1) have "c = Null"
    by (cases c) (auto simp: spec_board_def list_all_iff spec_occupied_def)
  with c(1) obtain i where "i < length arr" "arr ! i = Null" by (auto simp: in_set_conv_nth)
  then have "i \<in> set (emptyCells arr)" by (simp add: emptyCells_iff rd_Null_iff)
  then show ?thesis by auto
qed

lemma score_finite:
  "spec_board arr \<Longrightarrow> \<exists>k. score n arr d m = Num k"
proof (induction "nulls arr" arbitrary: arr d m rule: less_induct)
  case less
  show ?case
  proof (cases "checkWinner arr n PlayerO \<or> checkWinner arr n PlayerX \<or> every_truthy arr")
    case True
    then show ?thesis by (subst score_unfold) auto
  next
    case False
    with less.prems have ne: "emptyCells arr \<noteq> []" by (simp add: spec_board_not_full)
    have child: "\<exists>k. score n (js_set arr j (Mark p)) d' m' = Num k"
      if "j \<in> set (emptyCells arr)" for j p d' m'
    proof -
      from that have j: "j < length arr" "rd arr j = Null" by (simp_all add: emptyCells_iff rd_Null_iff)
      then have "nulls (js_set arr j (Mark p)) < nulls arr" by (simp add: nulls_js_set_Mark)
      moreover have "spec_board (js_set arr j (Mark p))"
        using less.prems j by (simp add: js_set_in spec_board_update)
      ultimately show ?thesis by (rule less.hyps)
    qed
    show ?thesis
    proof (cases m)
      case True
      let ?xs = "map (\<lambda>j. score n (js_set arr j (Mark PlayerO)) (d + 1) False) (emptyCells arr)"
      from ne have "?xs \<noteq> []" by simp
      then have "foldl max NegInf ?xs \<in> set ?xs"
        using foldl_max_NegInf_Max[of ?xs] Max_in[of "set ?xs"] by simp
      then obtain j where "j \<in> set (emptyCells arr)"
        "foldl max NegInf ?xs = score n (js_set arr j (Mark PlayerO)) (d + 1) False" by auto
      with child[of j PlayerO "d + 1" False]
      obtain k where "foldl max NegInf ?xs = Num k" by auto
      with True False show ?thesis by (subst score_unfold) simp
    next
      case m: False
      let ?xs = "map (\<lambda>j. score n (js_set arr j (Mark PlayerX)) (d + 1) True) (emptyCells arr)"
      from ne have "?xs \<noteq> []" by simp
      then have "foldl min PosInf ?xs \<in> set ?xs"
        using foldl_min_PosInf_Min[of ?xs] Min_in[of "set ?xs"] by simp
      then obtain j where "j \<in> set (emptyCells arr)"
        "foldl min PosInf ?xs = score n (js_set arr j (Mark PlayerX)) (d + 1) True" by auto
      with child[of j PlayerX "d + 1" True]
      obtain k where "foldl min PosInf ?xs = Num k" by auto
      with m False show ?thesis by (subst score_unfold) simp
    qed
  qed
qed


section \<open>The choice of the hard selector\<close>

lemma bestStep_alt:
  "bestStep n b (bs, mv) i =
     (if rd b i = Null \<and> bs < oneply n b i then (oneply n b i, Some i) else (bs, mv))"
  by (simp add: bestStep_def oneply_def score_def Let_def)

lemma foldl_max_mono_init:
  fixes b :: "'a::linorder"
  shows "b \<le> foldl max b xs"
  by (simp add: foldl_max_ge_iff)

lemma bestStep_fold:
  "foldl (bestStep n b) (bs, mv) xs =
     (foldl max bs (map (oneply n b) (filter (\<lambda>i. rd b i = Null) xs)),
      case find (\<lambda>i. rd b i = Null \<and>
                      oneply n b i = foldl max bs (map (oneply n b) (filter (\<lambda>i. rd b i = Null) xs)) \<and>
                      bs < oneply n b i) xs of
        Some i \<Rightarrow> Some i | None \<Rightarrow> mv)"
proof (induction xs arbitrary: bs mv)
  case Nil
  then show ?case by simp
next
  case (Cons x xs)
  let ?E = "\<lambda>i. rd b i = Null"
  let ?sc = "oneply n b"
  show ?case
  proof (cases "?E x \<and> bs < ?sc x")
    case True
    let ?M = "foldl max (?sc x) (map ?sc (filter ?E xs))"
    from True have mx: "max bs (?sc x) = ?sc x" by (intro max.absorb2 less_imp_le) simp
    have ge: "?sc x \<le> ?M" by (rule foldl_max_mono_init)
    have "(case find (\<lambda>i. ?E i \<and> ?sc i = ?M \<and> ?sc x < ?sc i) xs of
             Some i \<Rightarrow> Some i | None \<Rightarrow> Some x) =
          (case find (\<lambda>i. ?E i \<and> ?sc i = ?M \<and> bs < ?sc i) (x # xs) of
             Some i \<Rightarrow> Some i | None \<Rightarrow> mv)"
    proof (cases "?sc x = ?M")
      case eq: True
      then have "find (\<lambda>i. ?E i \<and> ?sc i = ?M \<and> ?sc x < ?sc i) xs = None"
        by (auto simp: find_None_iff)
      with eq True show ?thesis by simp
    next
      case neq: False
      with ge have lt: "?sc x < ?M" by simp
      with True have "bs < ?M" by (auto intro: less_trans)
      with lt have "(\<lambda>i. ?E i \<and> ?sc i = ?M \<and> ?sc x < ?sc i) = (\<lambda>i. ?E i \<and> ?sc i = ?M \<and> bs < ?sc i)"
        by auto
      moreover have "find (\<lambda>i. ?E i \<and> ?sc i = ?M \<and> bs < ?sc i) xs \<noteq> None"
      proof -
        from neq foldl_max_mem[of "?sc x" "map ?sc (filter ?E xs)"]
        have "?M \<in> set (map ?sc (filter ?E xs))" by auto
        then obtain i where "i \<in> set xs" "?E i" "?sc i = ?M" by auto
        with \<open>bs < ?M\<close> show ?thesis by (auto simp: find_None_iff)
      qed
      ultimately show ?thesis using neq by (auto split: option.splits)
    qed
    with True mx show ?thesis
      by (simp add: bestStep_alt Cons.IH)
  next
    case False
    let ?M = "foldl max bs (map ?sc (filter ?E xs))"
    have M: "foldl max bs (map ?sc (filter ?E (x # xs))) = ?M"
    proof (cases "?E x")
      case True
      with False have "?sc x \<le> bs" by simp
      then have "max bs (?sc x) = bs" by (rule max.absorb1)
      with True show ?thesis by simp
    next
      case False
      then show ?thesis by simp
    qed
    have nP: "\<not> (?E x \<and> ?sc x = ?M \<and> bs < ?sc x)" using False by auto
    have "foldl (bestStep n b) (bs, mv) (x # xs) = foldl (bestStep n b) (bs, mv) xs"
      using False by (auto simp: bestStep_alt)
    also have "\<dots> = (?M, case find (\<lambda>i. ?E i \<and> ?sc i = ?M \<and> bs < ?sc i) xs of
                            Some i \<Rightarrow> Some i | None \<Rightarrow> mv)"
      by (rule Cons.IH)
    also have "find (\<lambda>i. ?E i \<and> ?sc i = ?M \<and> bs < ?sc i) xs =
               find (\<lambda>i. ?E i \<and> ?sc i = ?M \<and> bs < ?sc i) (x # xs)"
      using nP by auto
    finally show ?thesis unfolding M .
  qed
qed

lemma find_upt_Some:
  "find P [0..<k] = Some i \<longleftrightarrow> i < k \<and> P i \<and> (\<forall>j<i. \<not> P j)"
  by (auto simp: find_Some_iff)

lemma getBestMove_find:
  "getBestMove n b =
     find (\<lambda>i. rd b i = Null \<and> oneply n b i = foldl max NegInf (map (oneply n b) (emptyCells b)) \<and>
                NegInf < oneply n b i) [0..<length b]"
  by (simp add: getBestMove_def bestStep_fold emptyCells_def split: option.splits)

lemma getBestMove_spec_board:
  assumes sb: "spec_board b" and ne: "emptyCells b \<noteq> []"
  shows "\<exists>i. getBestMove n b = Some i \<and> rd b i = Null \<and>
             (\<forall>j. rd b j = Null \<longrightarrow> oneply n b j \<le> oneply n b i) \<and>
             (\<forall>j<i. rd b j = Null \<longrightarrow> oneply n b j < oneply n b i)"
proof -
  let ?sc = "oneply n b"
  let ?xs = "map ?sc (emptyCells b)"
  let ?M = "foldl max NegInf ?xs"
  let ?P = "\<lambda>i. rd b i = Null \<and> ?sc i = ?M \<and> NegInf < ?sc i"
  have fin: "\<exists>k. ?sc j = Num k" if "rd b j = Null" for j
  proof -
    from that have "j < length b" by (simp add: rd_Null_iff)
    with sb have "spec_board (js_set (spread b) j (Mark PlayerO))"
      by (simp add: spec_board_spread js_set_in spec_board_update)
    then show ?thesis unfolding oneply_def by (rule score_finite)
  qed
  from ne have "?xs \<noteq> []" by simp
  then have "?M \<in> set ?xs" using foldl_max_NegInf_Max[of ?xs] Max_in[of "set ?xs"] by simp
  then obtain j where j: "rd b j = Null" "?sc j = ?M" by (auto simp: emptyCells_iff)
  with fin[of j] have "?P j" by auto
  moreover from j have "j < length b" by (simp add: rd_Null_iff)
  ultimately have "\<exists>i. i < length b \<and> ?P i" by blast
  then obtain i where i: "i < length b" "?P i" "\<forall>j<i. \<not> ?P j"
    using exists_least_iff[of "\<lambda>i. i < length b \<and> ?P i"] by (metis (no_types, lifting) less_trans)
  then have g: "getBestMove n b = Some i"
    unfolding getBestMove_find find_upt_Some by blast
  have le: "?sc k \<le> ?M" if "rd b k = Null" for k
    using that by (auto simp: foldl_max_ge_iff emptyCells_iff)
  have lt: "?sc k < ?sc i" if "k < i" "rd b k = Null" for k
  proof -
    from i(3) that have "\<not> ?P k" by simp
    with that(2) fin[of k] have "?sc k \<noteq> ?M" by auto
    with le[OF that(2)] i(2) show ?thesis by simp
  qed
  from g i(2) le lt show ?thesis by auto
qed

section \<open>The hard selector against the specification\<close>

lemma spec_board_every_truthy:
  "spec_board arr \<Longrightarrow> every_truthy arr = list_all spec_occupied arr"
proof -
  assume "spec_board arr"
  then have "Hole \<notin> set arr" by (auto simp: spec_board_def list_all_iff spec_occupied_def)
  then show ?thesis by (rule every_truthy_occupied)
qed

lemma emptyCells_set: "set (emptyCells arr) = {i. i < length arr \<and> rd arr i = Null}"
  by (auto simp: emptyCells_iff rd_Null_iff)

lemma minimax_spec_board:
  assumes sb: "spec_board arr"
  shows "fst (minimax n arr d m) =
     (if checkWinner arr n PlayerO then Num (10 - d)
      else if checkWinner arr n PlayerX then Num (d - 10)
      else if list_all spec_occupied arr then Num 0
      else if m then Max ((\<lambda>i. fst (minimax n (arr[i := Mark PlayerO]) (d + 1) False)) `
                           {i. i < length arr \<and> arr ! i = Null})
      else Min ((\<lambda>i. fst (minimax n (arr[i := Mark PlayerX]) (d + 1) True)) `
                  {i. i < length arr \<and> arr ! i = Null}))"
proof (cases "checkWinner arr n PlayerO \<or> checkWinner arr n PlayerX \<or> every_truthy arr")
  case True
  then show ?thesis
    unfolding score_def[symmetric] spec_board_every_truthy[OF sb, symmetric]
    by (subst score_unfold) auto
next
  case False
  with sb have ne: "emptyCells arr \<noteq> []" by (simp add: spec_board_not_full)
  have set_eq: "{i. i < length arr \<and> arr ! i = Null} = set (emptyCells arr)"
    using sb by (auto simp: emptyCells_set spec_board_rd)
  have img: "(\<lambda>i. score n (arr[i := Mark p]) d' m') ` set (emptyCells arr) =
             set (map (\<lambda>j. score n (js_set arr j (Mark p)) d' m') (emptyCells arr))" for p d' m'
    by (auto simp: emptyCells_iff rd_Null_iff js_set_in intro!: image_eqI)
  show ?thesis
    using False ne
    unfolding score_def[symmetric] spec_board_every_truthy[OF sb, symmetric] set_eq img
    by (subst score_unfold) (simp add: foldl_max_NegInf_Max foldl_min_PosInf_Min)
qed

text \<open>
  C3. On a board of the data model with an empty cell, \<open>getBestMove\<close> returns an empty
  index whose one-ply simulation (O's mark there, searched at depth 0 with X to move) has
  the greatest score of all empty cells, and every empty cell of lower index has a
  strictly smaller score. The score of a board of the data model is \<open>10 - depth\<close> when
  O has a line, else \<open>depth - 10\<close> when X has one, else 0 when the board is full, else the
  maximum (O to move) or minimum (X to move) of the scores of the boards one move away,
  at \<open>depth + 1\<close> with the other side to move.
\<close>

theorem getBestMove_argmax:
  assumes "spec_board b" and "\<exists>i<length b. b ! i = Null"
  shows "(\<exists>i. getBestMove n b = Some i \<and> i < length b \<and> b ! i = Null \<and>
            (\<forall>j<length b. b ! j = Null \<longrightarrow>
               fst (minimax n (b[j := Mark PlayerO]) 0 False)
                 \<le> fst (minimax n (b[i := Mark PlayerO]) 0 False)) \<and>
            (\<forall>j<i. b ! j = Null \<longrightarrow>
               fst (minimax n (b[j := Mark PlayerO]) 0 False)
                 < fst (minimax n (b[i := Mark PlayerO]) 0 False))) \<and>
         (\<forall>arr d m. spec_board arr \<longrightarrow>
            fst (minimax n arr d m) =
              (if checkWinner arr n PlayerO then Num (10 - d)
               else if checkWinner arr n PlayerX then Num (d - 10)
               else if list_all spec_occupied arr then Num 0
               else if m then Max ((\<lambda>i. fst (minimax n (arr[i := Mark PlayerO]) (d + 1) False)) `
                                    {i. i < length arr \<and> arr ! i = Null})
               else Min ((\<lambda>i. fst (minimax n (arr[i := Mark PlayerX]) (d + 1) True)) `
                           {i. i < length arr \<and> arr ! i = Null})))"
proof
  from assms have ne: "emptyCells b \<noteq> []"
    by (auto simp: emptyCells_def filter_empty_conv spec_board_rd)
  have op: "oneply n b j = fst (minimax n (b[j := Mark PlayerO]) 0 False)" if "j < length b" for j
    using that assms(1) by (simp add: oneply_def score_def spec_board_spread js_set_in)
  from getBestMove_spec_board[OF assms(1) ne, of n] obtain i where
    i: "getBestMove n b = Some i" "rd b i = Null"
       "\<forall>j. rd b j = Null \<longrightarrow> oneply n b j \<le> oneply n b i"
       "\<forall>j<i. rd b j = Null \<longrightarrow> oneply n b j < oneply n b i"
    by blast
  from i(2) have il: "i < length b" "b ! i = Null" by (simp_all add: rd_Null_iff)
  have "\<forall>j<length b. b ! j = Null \<longrightarrow>
          fst (minimax n (b[j := Mark PlayerO]) 0 False) \<le> fst (minimax n (b[i := Mark PlayerO]) 0 False)"
    using i(3) il(1) by (auto simp: rd_Null_iff op[symmetric])
  moreover have "\<forall>j<i. b ! j = Null \<longrightarrow>
          fst (minimax n (b[j := Mark PlayerO]) 0 False) < fst (minimax n (b[i := Mark PlayerO]) 0 False)"
  proof (intro allI impI)
    fix j assume j: "j < i" "b ! j = Null"
    with il(1) have jl: "j < length b" by simp
    with j i(4) have "oneply n b j < oneply n b i" by (simp add: rd_Null_iff)
    then show "fst (minimax n (b[j := Mark PlayerO]) 0 False) < fst (minimax n (b[i := Mark PlayerO]) 0 False)"
      by (simp add: op[OF jl] op[OF il(1)])
  qed
  ultimately show "\<exists>i. getBestMove n b = Some i \<and> i < length b \<and> b ! i = Null \<and>
            (\<forall>j<length b. b ! j = Null \<longrightarrow>
               fst (minimax n (b[j := Mark PlayerO]) 0 False)
                 \<le> fst (minimax n (b[i := Mark PlayerO]) 0 False)) \<and>
            (\<forall>j<i. b ! j = Null \<longrightarrow>
               fst (minimax n (b[j := Mark PlayerO]) 0 False)
                 < fst (minimax n (b[i := Mark PlayerO]) 0 False))"
    using i(1) il by blast
next
  show "\<forall>arr d m. spec_board arr \<longrightarrow>
            fst (minimax n arr d m) =
              (if checkWinner arr n PlayerO then Num (10 - d)
               else if checkWinner arr n PlayerX then Num (d - 10)
               else if list_all spec_occupied arr then Num 0
               else if m then Max ((\<lambda>i. fst (minimax n (arr[i := Mark PlayerO]) (d + 1) False)) `
                                    {i. i < length arr \<and> arr ! i = Null})
               else Min ((\<lambda>i. fst (minimax n (arr[i := Mark PlayerX]) (d + 1) True)) `
                           {i. i < length arr \<and> arr ! i = Null}))"
    using minimax_spec_board by blast
qed


section \<open>The product \<open>Math.random() * empty.length\<close>\<close>

text \<open>
  The rounded product stays below the next multiple of \<open>k\<close>, so the index is inside the
  list; and the index lies between the exact quotients for \<open>m\<close> and \<open>m + 1\<close>, so the
  values of \<open>Math.random()\<close> that select one index are one of \<open>k\<close> equal parts of all
  values, up to the two cells at the ends of the part.
\<close>

declare excess.simps [simp del]

lemma excess_bounds: "p div 2 ^ excess p < 2 ^ 53 \<and> (0 < excess p \<longrightarrow> 2 ^ (52 + excess p) \<le> p)"
proof (induction p rule: excess.induct)
  case (1 p)
  show ?case
  proof (cases "p < 2 ^ 53")
    case True
    then show ?thesis by (simp add: excess.simps[of p])
  next
    case False
    from 1[OF False] have a: "p div 2 div 2 ^ excess (p div 2) < 2 ^ 53"
      and b: "0 < excess (p div 2) \<longrightarrow> 2 ^ (52 + excess (p div 2)) \<le> p div 2" by auto
    have e: "excess p = Suc (excess (p div 2))" using False by (simp add: excess.simps[of p])
    have "p div 2 ^ excess p = p div 2 div 2 ^ excess (p div 2)"
      by (simp add: e div_mult2_eq)
    with a have c1: "p div 2 ^ excess p < 2 ^ 53" by simp
    have c2: "2 ^ (52 + excess p) \<le> p"
    proof (cases "0 < excess (p div 2)")
      case True
      with b have "2 ^ (52 + excess (p div 2)) \<le> p div 2" by simp
      then have "2 * 2 ^ (52 + excess (p div 2)) \<le> p" by linarith
      moreover have "2 * 2 ^ (52 + excess (p div 2)) = (2::nat) ^ (52 + excess p)"
        unfolding e add_Suc_right power_Suc ..
      ultimately show ?thesis by (simp only:)
    next
      case False
      then have "excess p = 1" by (simp add: e)
      with \<open>\<not> p < 2 ^ 53\<close> show ?thesis by simp
    qed
    from c1 c2 show ?thesis by simp
  qed
qed

lemma mulDouble_rounded: "mulDouble (m, e) k = (rounded (m * k), e)"
  by (simp add: mulDouble_def rounded_def Let_def)

lemma rounded_exact: "excess p = 0 \<Longrightarrow> rounded p = p"
  by (simp add: rounded_def roundEven_def)

lemma roundEven_lower: "p div 2 ^ s * 2 ^ s \<le> roundEven p s * 2 ^ s"
  by (simp add: roundEven_def Let_def)

lemma roundEven_upper: "2 * (roundEven p s * 2 ^ s) \<le> 2 * p + 2 ^ s"
proof -
  have d: "p div 2 ^ s * 2 ^ s + p mod 2 ^ s = p" by (rule div_mult_mod_eq)
  show ?thesis
  proof (cases "2 ^ s < 2 * (p mod 2 ^ s) \<or> (2 * (p mod 2 ^ s) = 2 ^ s \<and> odd (p div 2 ^ s))")
    case True
    then have r: "roundEven p s = p div 2 ^ s + 1" by (simp add: roundEven_def Let_def)
    from True have h: "(2::nat) ^ s \<le> 2 * (p mod 2 ^ s)" by auto
    have "2 * (roundEven p s * 2 ^ s) = 2 * (p div 2 ^ s * 2 ^ s) + 2 * 2 ^ s"
      by (simp add: r algebra_simps)
    also have "\<dots> \<le> 2 * (p div 2 ^ s * 2 ^ s) + 2 * (p mod 2 ^ s) + 2 ^ s"
      using h by simp
    also have "\<dots> = 2 * (p div 2 ^ s * 2 ^ s + p mod 2 ^ s) + 2 ^ s" by simp
    also have "\<dots> = 2 * p + 2 ^ s" unfolding d ..
    finally show ?thesis .
  next
    case False
    then have r: "roundEven p s = p div 2 ^ s" by (simp add: roundEven_def Let_def)
    have "p div 2 ^ s * 2 ^ s \<le> p" using d by linarith
    then show ?thesis unfolding r by linarith
  qed
qed

lemma excess_small:
  assumes "m < 2 ^ 53" "0 < excess (m * k)"
  shows "2 ^ excess (m * k) < 2 * k"
proof -
  let ?s = "excess (m * k)"
  from excess_bounds[of "m * k"] assms(2) have "2 ^ (52 + ?s) \<le> m * k" by simp
  also have "m * k \<le> 2 ^ 53 * k" using assms(1) by (intro mult_right_mono) simp_all
  finally have "(2::nat) ^ 52 * 2 ^ ?s \<le> 2 ^ 52 * (2 * k)" by (simp add: power_add)
  then have le: "(2::nat) ^ ?s \<le> 2 * k" by simp
  have "(2::nat) ^ ?s \<noteq> 2 * k"
  proof
    assume eq: "(2::nat) ^ ?s = 2 * k"
    from excess_bounds[of "m * k"] assms(2) have "2 ^ (52 + ?s) \<le> m * k" by simp
    then have "2 ^ 52 * (2 * k) \<le> m * k" by (simp add: power_add eq)
    then have "2 ^ 53 * k \<le> m * k" by simp
    moreover have "0 < k" using eq by (cases k) auto
    ultimately have "2 ^ 53 \<le> m" by simp
    with assms(1) show False by simp
  qed
  with le show ?thesis by simp
qed

lemma rounded_below_next:
  assumes "m < 2 ^ 53" "0 < k"
  shows "rounded (m * k) < (m + 1) * k"
proof (cases "excess (m * k) = 0")
  case True
  then show ?thesis using assms(2) by (simp add: rounded_exact)
next
  case False
  then have "2 ^ excess (m * k) < 2 * k" using excess_small[OF assms(1)] by simp
  with roundEven_upper[of "m * k" "excess (m * k)"]
  have "2 * rounded (m * k) < 2 * (m * k) + 2 * k" by (simp add: rounded_def)
  then show ?thesis by simp
qed

lemma excess_le_scale:
  assumes "m < 2 ^ e" "k \<le> 2 ^ 53"
  shows "excess (m * k) \<le> e"
proof (rule ccontr)
  assume "\<not> excess (m * k) \<le> e"
  then have gt: "e < excess (m * k)" by simp
  then have "0 < excess (m * k)" by simp
  with excess_bounds[of "m * k"] have "2 ^ (52 + excess (m * k)) \<le> m * k" by simp
  moreover have "(2::nat) ^ (53 + e) \<le> 2 ^ (52 + excess (m * k))"
    using gt by (intro power_increasing) simp_all
  moreover have "m * k < 2 ^ e * 2 ^ 53"
  proof -
    have "0 < k \<or> k = 0" by auto
    then show ?thesis
    proof
      assume "0 < k"
      then have "m * k < 2 ^ e * k" using assms(1) by simp
      also have "\<dots> \<le> 2 ^ e * 2 ^ 53" using assms(2) by simp
      finally show ?thesis .
    next
      assume "k = 0" then show ?thesis by simp
    qed
  qed
  ultimately show False by (simp add: power_add mult.commute)
qed

lemma rounded_above_floor:
  assumes "m < 2 ^ e" "k \<le> 2 ^ 53"
  shows "m * k div 2 ^ e * 2 ^ e \<le> rounded (m * k)"
proof -
  let ?p = "m * k" and ?s = "excess (m * k)"
  from excess_le_scale[OF assms] have se: "?s \<le> e" .
  then have pw: "(2::nat) ^ e = 2 ^ (e - ?s) * 2 ^ ?s" by (simp flip: power_add)
  have "?p div 2 ^ e * 2 ^ (e - ?s) * 2 ^ ?s \<le> ?p"
    unfolding mult.assoc pw[symmetric] by simp
  then have "?p div 2 ^ e * 2 ^ (e - ?s) \<le> ?p div 2 ^ ?s"
    by (simp add: less_eq_div_iff_mult_less_eq)
  then have "?p div 2 ^ e * 2 ^ (e - ?s) * 2 ^ ?s \<le> ?p div 2 ^ ?s * 2 ^ ?s"
    by (rule mult_right_mono) simp
  also have "\<dots> \<le> rounded ?p" unfolding rounded_def by (rule roundEven_lower)
  finally show ?thesis by (simp add: mult.assoc flip: pw)
qed

lemma index_less:
  assumes "randomValue (m, e)" "0 < k"
  shows "mathFloor (mulDouble (m, e) k) < k"
proof -
  from assms(1) have m: "m < 2 ^ 53" "m < 2 ^ e" by (simp_all add: randomValue_def)
  from rounded_below_next[OF m(1) assms(2)] have "rounded (m * k) < (m + 1) * k" .
  also have "\<dots> \<le> 2 ^ e * k" using m(2) by (intro mult_right_mono) simp_all
  finally have "rounded (m * k) < k * 2 ^ e" by (simp add: mult.commute)
  then show ?thesis
    by (simp add: mathFloor_def mulDouble_rounded less_mult_imp_div_less)
qed

lemma index_sandwich:
  assumes "m < 2 ^ e" "m < 2 ^ 53" "0 < k" "k \<le> 2 ^ 53"
  shows "m * k div 2 ^ e \<le> mathFloor (mulDouble (m, e) k)"
    and "mathFloor (mulDouble (m, e) k) \<le> (m + 1) * k div 2 ^ e"
proof -
  from rounded_above_floor[OF assms(1,4)]
  show "m * k div 2 ^ e \<le> mathFloor (mulDouble (m, e) k)"
    by (simp add: mathFloor_def mulDouble_rounded less_eq_div_iff_mult_less_eq)
  from rounded_below_next[OF assms(2,3)] have "rounded (m * k) \<le> (m + 1) * k" by simp
  then show "mathFloor (mulDouble (m, e) k) \<le> (m + 1) * k div 2 ^ e"
    unfolding mathFloor_def mulDouble_rounded prod.case by (rule div_le_mono)
qed

lemma share_iff:
  assumes "0 < k"
  shows "a < share N k j \<longleftrightarrow> a * k < j * N"
proof -
  have "a < (j * N + k - 1) div k \<longleftrightarrow> a + 1 \<le> (j * N + k - 1) div k" by auto
  also have "\<dots> \<longleftrightarrow> (a + 1) * k \<le> j * N + k - 1"
    by (rule less_eq_div_iff_mult_less_eq[OF assms])
  also have "\<dots> \<longleftrightarrow> a * k < j * N" using assms by (cases k) auto
  finally show ?thesis by (simp only: share_def)
qed

lemma share_last:
  assumes "0 < k"
  shows "share N k k = N"
proof -
  have "k * N + k - 1 = (k - 1) + N * k" using assms by (cases k) (simp_all add: algebra_simps)
  then have "share N k k = ((k - 1) + N * k) div k" by (simp only: share_def)
  also have "\<dots> = N + (k - 1) div k" using assms by (intro div_mult_self1) simp
  also have "(k - 1) div k = 0" using assms by simp
  finally show ?thesis by simp
qed

lemma share_mono: "i \<le> j \<Longrightarrow> share N k i \<le> share N k j"
  unfolding share_def by (intro div_le_mono diff_le_mono add_le_mono mult_le_mono) simp_all

lemma share_step:
  assumes "0 < k"
  shows "N div k \<le> share N k (j + 1) - share N k j"
    and "share N k (j + 1) - share N k j \<le> N div k + 1"
proof -
  let ?x = "j * N + k - 1"
  have x: "(j + 1) * N + k - 1 = ?x + N" using assms by (cases k) (simp_all add: algebra_simps)
  note d = div_add1_eq[of ?x N k]
  show "N div k \<le> share N k (j + 1) - share N k j"
    unfolding share_def x d by simp
  have "?x mod k < k" "N mod k < k" using assms by (rule mod_less_divisor)+
  then have "?x mod k + N mod k < 2 * k" by linarith
  then have "(?x mod k + N mod k) div k < 2" by (rule less_mult_imp_div_less)
  then show "share N k (j + 1) - share N k j \<le> N div k + 1"
    unfolding share_def x d by simp
qed

lemma count_sandwich:
  fixes f :: "nat \<Rightarrow> nat"
  assumes N: "0 < N" and k: "0 < k" and j: "j < k"
    and lo: "\<And>a. a < N \<Longrightarrow> a * k div N \<le> f a"
    and hi: "\<And>a. a < N \<Longrightarrow> f a \<le> (a + 1) * k div N"
  shows "N div k \<le> card {a. a < N \<and> f a = j} + 1"
    and "card {a. a < N \<and> f a = j} \<le> N div k + 2"
proof -
  let ?S = "{a. a < N \<and> f a = j}"
  let ?c = "share N k"
  note dl = div_less_iff_less_mult[OF N]
  have fin: "finite ?S" by simp
  have top: "?c (j + 1) \<le> N" using share_mono[of "j + 1" k N k] j share_last[OF k, of N] by simp
  have sub: "?S \<subseteq> {?c j - 1 ..< ?c (j + 1)}"
  proof
    fix a assume "a \<in> ?S"
    then have a: "a < N" "f a = j" by simp_all
    from lo[OF a(1)] a(2) have "a * k div N < j + 1" by simp
    then have "a * k < (j + 1) * N" unfolding dl .
    then have u: "a < ?c (j + 1)" unfolding share_iff[OF k] .
    from hi[OF a(1)] a(2) have "\<not> (a + 1) * k div N < j" by simp
    then have "\<not> (a + 1) * k < j * N" unfolding dl .
    then have "\<not> a + 1 < ?c j" unfolding share_iff[OF k] .
    with u show "a \<in> {?c j - 1 ..< ?c (j + 1)}" by simp
  qed
  have "card ?S \<le> card {?c j - 1 ..< ?c (j + 1)}" by (rule card_mono[OF _ sub]) simp
  also have "\<dots> \<le> ?c (j + 1) - ?c j + 1" by simp
  also have "\<dots> \<le> N div k + 2" using share_step(2)[OF k, of N j] by simp
  finally show "card ?S \<le> N div k + 2" .
  have sup: "{?c j ..< ?c (j + 1) - 1} \<subseteq> ?S"
  proof
    fix a assume "a \<in> {?c j ..< ?c (j + 1) - 1}"
    then have a: "?c j \<le> a" "a + 1 < ?c (j + 1)" by auto
    from a(2) top have aN: "a < N" by simp
    from a(1) have "\<not> a < ?c j" by simp
    then have "\<not> a * k < j * N" unfolding share_iff[OF k] .
    then have "\<not> a * k div N < j" unfolding dl .
    with lo[OF aN] have l: "j \<le> f a" by simp
    from a(2) have "(a + 1) * k < (j + 1) * N" unfolding share_iff[OF k] .
    then have "(a + 1) * k div N < j + 1" unfolding dl .
    with hi[OF aN] have "f a \<le> j" by simp
    with l aN show "a \<in> ?S" by simp
  qed
  have c: "card {?c j ..< ?c (j + 1) - 1} \<le> card ?S" by (rule card_mono[OF fin sup])
  have "N div k \<le> ?c (j + 1) - ?c j" by (rule share_step(1)[OF k])
  also have "\<dots> \<le> card {?c j ..< ?c (j + 1) - 1} + 1" by simp
  also have "\<dots> \<le> card ?S + 1" using c by simp
  finally show "N div k \<le> card ?S + 1" .
qed

lemma excess_numeral:
  "excess (numeral v) = (if (numeral v :: nat) < 2 ^ 53 then 0 else Suc (excess (numeral v div 2)))"
  by (rule excess.simps)

section \<open>The medium selector\<close>

lemma spec_hasLine_cong:
  assumes "\<And>j. rd a j = rd a' j"
  shows "spec_hasLine a n p = spec_hasLine a' n p"
proof -
  have "spec_occupies a p = spec_occupies a' p"
    by (rule ext) (simp add: spec_occupies_def assms)
  then show ?thesis by (simp add: spec_hasLine_def)
qed

lemma rd_update_Mark:
  "i < length b \<Longrightarrow> rd (b[i := Mark p]) j = (if j = i then Mark p else rd b j)"
  by (auto simp: rd_def)

lemma completes_code:
  assumes "0 < n"
  shows "(rd b i = Null \<and> checkWinner (js_set (spread b) i (Mark p)) n p) = spec_completes n b p i"
proof (cases "i < length b")
  case True
  have "spec_hasLine (js_set (spread b) i (Mark p)) n p = spec_hasLine (b[i := Mark p]) n p"
    by (rule spec_hasLine_cong) (simp add: rd_js_set_Mark rd_update_Mark True)
  with assms True show ?thesis
    by (auto simp: spec_completes_def checkWinner_lines rd_Null_iff)
next
  case False
  then show ?thesis by (simp add: spec_completes_def rd_Null_iff)
qed

lemma find_upt_None: "find P [0..<k] = None \<longleftrightarrow> (\<forall>i<k. \<not> P i)"
  by (auto simp: find_None_iff)

lemma find_upt_Least:
  assumes "\<exists>i<k. P i"
  shows "find P [0..<k] = Some (LEAST i. P i)"
proof -
  from assms obtain i where i: "i < k" "P i" by blast
  have l1: "P (LEAST i. P i)" using i(2) by (rule LeastI)
  have l2: "(LEAST i. P i) \<le> i" using i(2) by (rule Least_le)
  with i(1) have l3: "(LEAST i. P i) < k" by simp
  have l4: "\<forall>j<LEAST i. P i. \<not> P j"
  proof (intro allI impI)
    fix j assume "j < (LEAST i. P i)"
    then show "\<not> P j" by (rule not_less_Least)
  qed
  from l1 l3 l4 show ?thesis unfolding find_upt_Some by blast
qed

lemma getRandomMove_result:
  assumes "randomValue u"
  shows "getRandomMove u b =
           (if emptyCells b = [] then None
            else Some (emptyCells b ! mathFloor (mulDouble u (length (emptyCells b)))))"
    and "emptyCells b \<noteq> [] \<Longrightarrow>
           mathFloor (mulDouble u (length (emptyCells b))) < length (emptyCells b)"
proof -
  obtain m e where u: "u = (m, e)" by (cases u)
  have less: "mathFloor (mulDouble u (length (emptyCells b))) < length (emptyCells b)"
    if "emptyCells b \<noteq> []"
    unfolding u using that by (intro index_less) (simp_all add: assms[unfolded u])
  then show "emptyCells b \<noteq> [] \<Longrightarrow>
           mathFloor (mulDouble u (length (emptyCells b))) < length (emptyCells b)" .
  show "getRandomMove u b =
           (if emptyCells b = [] then None
            else Some (emptyCells b ! mathFloor (mulDouble u (length (emptyCells b)))))"
  proof (cases "emptyCells b = []")
    case True
    then show ?thesis by (simp add: getRandomMove_def)
  next
    case False
    with less[OF False] show ?thesis by (simp add: getRandomMove_def Let_def)
  qed
qed

lemma distinct_emptyCells: "distinct (emptyCells b)"
  by (simp add: emptyCells_def)

lemma getRandomMove_nth:
  assumes "randomValue u" "j < length (emptyCells b)"
  shows "getRandomMove u b = Some (emptyCells b ! j) \<longleftrightarrow>
           mathFloor (mulDouble u (length (emptyCells b))) = j"
proof -
  from assms(2) have ne: "emptyCells b \<noteq> []" by (cases "emptyCells b") simp_all
  from getRandomMove_result(2)[OF assms(1) ne] assms(2) distinct_emptyCells[of b]
  show ?thesis
    by (simp add: getRandomMove_result(1)[OF assms(1)] ne nth_eq_iff_index_eq)
qed

lemma getRandomMove_share:
  assumes g: "g \<le> 53" and k: "length (emptyCells b) \<le> 2 ^ 53" and j: "j < length (emptyCells b)"
  shows "2 ^ g div length (emptyCells b)
           \<le> card {a. a < 2 ^ g \<and> getRandomMove (a, g) b = Some (emptyCells b ! j)} + 1"
    and "card {a. a < 2 ^ g \<and> getRandomMove (a, g) b = Some (emptyCells b ! j)}
           \<le> 2 ^ g div length (emptyCells b) + 2"
proof -
  let ?k = "length (emptyCells b)"
  let ?f = "\<lambda>a. mathFloor (mulDouble (a, g) ?k)"
  from j have kp: "0 < ?k" by linarith
  have small: "a < 2 ^ 53" if "a < 2 ^ g" for a :: nat
  proof -
    have "(2::nat) ^ g \<le> 2 ^ 53" using g by (intro power_increasing) simp_all
    with that show ?thesis by simp
  qed
  have rv: "randomValue (a, g)" if "a < 2 ^ g" for a
    using that small[OF that] g by (simp add: randomValue_def)
  have eq: "{a. a < 2 ^ g \<and> getRandomMove (a, g) b = Some (emptyCells b ! j)} =
            {a. a < 2 ^ g \<and> ?f a = j}"
    using getRandomMove_nth[OF rv j] by auto
  have lo: "a * ?k div 2 ^ g \<le> ?f a" if "a < 2 ^ g" for a
    by (rule index_sandwich(1)[OF that small[OF that] kp k])
  have hi: "?f a \<le> (a + 1) * ?k div 2 ^ g" if "a < 2 ^ g" for a
    by (rule index_sandwich(2)[OF that small[OF that] kp k])
  show "2 ^ g div ?k \<le> card {a. a < 2 ^ g \<and> getRandomMove (a, g) b = Some (emptyCells b ! j)} + 1"
    unfolding eq by (rule count_sandwich(1)[OF _ kp j lo hi]) simp_all
  show "card {a. a < 2 ^ g \<and> getRandomMove (a, g) b = Some (emptyCells b ! j)} \<le> 2 ^ g div ?k + 2"
    unfolding eq by (rule count_sandwich(2)[OF _ kp j lo hi]) simp_all
qed

lemma find_completes:
  assumes "0 < n"
  shows "find (\<lambda>i. rd b i = Null \<and> checkWinner (js_set (spread b) i (Mark p)) n p) [0..<length b] =
           (if \<exists>i. spec_completes n b p i then Some (LEAST i. spec_completes n b p i) else None)"
proof -
  have eq: "(\<lambda>i. rd b i = Null \<and> checkWinner (js_set (spread b) i (Mark p)) n p) =
            spec_completes n b p"
    by (rule ext) (rule completes_code[OF assms])
  show ?thesis
  proof (cases "\<exists>i. spec_completes n b p i")
    case True
    then have "\<exists>i<length b. spec_completes n b p i" by (auto simp: spec_completes_def)
    then have "find (spec_completes n b p) [0..<length b] = Some (LEAST i. spec_completes n b p i)"
      by (rule find_upt_Least)
    with True show ?thesis by (simp add: eq)
  next
    case False
    then have "find (spec_completes n b p) [0..<length b] = None"
      by (simp add: find_upt_None)
    with False show ?thesis by (simp add: eq)
  qed
qed

lemma getMediumMove_chain:
  assumes "0 < n"
  shows "(\<exists>i. spec_completes n b PlayerO i) \<Longrightarrow>
           getMediumMove u n b = Some (LEAST i. spec_completes n b PlayerO i)"
    and "\<not> (\<exists>i. spec_completes n b PlayerO i) \<Longrightarrow> (\<exists>i. spec_completes n b PlayerX i) \<Longrightarrow>
           getMediumMove u n b = Some (LEAST i. spec_completes n b PlayerX i)"
    and "\<not> (\<exists>i. spec_completes n b PlayerO i) \<Longrightarrow> \<not> (\<exists>i. spec_completes n b PlayerX i) \<Longrightarrow>
           getMediumMove u n b =
             (if rd b ((n * n) div 2) = Null then Some ((n * n) div 2) else getRandomMove u b)"
proof -
  show "getMediumMove u n b = Some (LEAST i. spec_completes n b PlayerO i)"
    if "\<exists>i. spec_completes n b PlayerO i"
    unfolding getMediumMove_def find_completes[OF assms] if_P[OF that] by simp
  show "getMediumMove u n b = Some (LEAST i. spec_completes n b PlayerX i)"
    if "\<not> (\<exists>i. spec_completes n b PlayerO i)" and "\<exists>i. spec_completes n b PlayerX i"
    unfolding getMediumMove_def find_completes[OF assms] if_not_P[OF that(1)] if_P[OF that(2)]
    by simp
  show "getMediumMove u n b =
          (if rd b ((n * n) div 2) = Null then Some ((n * n) div 2) else getRandomMove u b)"
    if "\<not> (\<exists>i. spec_completes n b PlayerO i)" and "\<not> (\<exists>i. spec_completes n b PlayerX i)"
    unfolding getMediumMove_def find_completes[OF assms] if_not_P[OF that(1)] if_not_P[OF that(2)]
    by (simp add: Let_def)
qed

lemma length_emptyCells: "length (emptyCells b) \<le> length b"
  using length_filter_le[of "\<lambda>i. rd b i = Null" "[0..<length b]"] by (simp add: emptyCells_def)

text \<open>
  C5. On a board with an empty cell (side \<open>n > 0\<close>; fewer than \<open>2 ^ 32\<close> cells, as every
  JavaScript array has; \<open>Math.random()\<close> returning the double \<open>u\<close>), \<open>getMediumMove\<close>
  returns the lowest empty index that completes a line of O if there is one; else the
  lowest empty index that completes a line of X; else the centre index \<open>(n * n) div 2\<close> if
  that cell is empty; else a random empty index: the one at position
  \<open>Math.floor(u * k)\<close> of the \<open>k\<close> empty indices in increasing order, the product being
  the rounded product of doubles. This choice is uniform as far as \<open>Math.random()\<close> is:
  when \<open>Math.random()\<close> takes each of the values \<open>a / 2 ^ g\<close> (\<open>a < 2 ^ g\<close>, with
  \<open>g \<le> 53\<close> bits) equally often, every empty index is returned for \<open>2 ^ g div k\<close> of
  these \<open>2 ^ g\<close> values, up to one less and two more. On O O _ / X X _ / _ _ _ and on
  X X _ / _ _ _ / _ _ _ the selector returns index 2.
\<close>

theorem getMediumMove_priority:
  assumes "0 < n" and "randomValue u" and "\<exists>i<length b. b ! i = Null" and "length b < 2 ^ 32"
  shows "((\<exists>i. spec_completes n b PlayerO i) \<longrightarrow>
            getMediumMove u n b = Some (LEAST i. spec_completes n b PlayerO i)) \<and>
         (\<not> (\<exists>i. spec_completes n b PlayerO i) \<and> (\<exists>i. spec_completes n b PlayerX i) \<longrightarrow>
            getMediumMove u n b = Some (LEAST i. spec_completes n b PlayerX i)) \<and>
         (\<not> (\<exists>i. spec_completes n b PlayerO i) \<and> \<not> (\<exists>i. spec_completes n b PlayerX i) \<and>
          (n * n) div 2 < length b \<and> b ! ((n * n) div 2) = Null \<longrightarrow>
            getMediumMove u n b = Some ((n * n) div 2)) \<and>
         (\<not> (\<exists>i. spec_completes n b PlayerO i) \<and> \<not> (\<exists>i. spec_completes n b PlayerX i) \<and>
          \<not> ((n * n) div 2 < length b \<and> b ! ((n * n) div 2) = Null) \<longrightarrow>
            getMediumMove u n b =
              Some (emptyCells b ! mathFloor (mulDouble u (length (emptyCells b)))) \<and>
            mathFloor (mulDouble u (length (emptyCells b))) < length (emptyCells b) \<and>
            (\<forall>g j. g \<le> 53 \<and> j < length (emptyCells b) \<longrightarrow>
               2 ^ g div length (emptyCells b)
                 \<le> card {a. a < 2 ^ g \<and> getMediumMove (a, g) n b = Some (emptyCells b ! j)} + 1 \<and>
               card {a. a < 2 ^ g \<and> getMediumMove (a, g) n b = Some (emptyCells b ! j)}
                 \<le> 2 ^ g div length (emptyCells b) + 2)) \<and>
         set (emptyCells b) = {i. i < length b \<and> b ! i = Null} \<and> sorted (emptyCells b) \<and>
         distinct (emptyCells b) \<and>
         getMediumMove u 3 [Mark PlayerO, Mark PlayerO, Null, Mark PlayerX, Mark PlayerX, Null,
                            Null, Null, Null] = Some 2 \<and>
         getMediumMove u 3 [Mark PlayerX, Mark PlayerX, Null, Null, Null, Null,
                            Null, Null, Null] = Some 2"
proof -
  let ?k = "length (emptyCells b)"
  from assms(3) have ne: "emptyCells b \<noteq> []"
    by (auto simp: emptyCells_def filter_empty_conv rd_Null_iff)
  have less: "mathFloor (mulDouble u ?k) < ?k"
    by (rule getRandomMove_result(2)[OF assms(2) ne])
  have k53: "?k \<le> 2 ^ 53" using length_emptyCells[of b] assms(4) by simp
  have cells: "set (emptyCells b) = {i. i < length b \<and> b ! i = Null}"
    by (auto simp: emptyCells_iff rd_Null_iff)
  have srt: "sorted (emptyCells b)"
    unfolding emptyCells_def by (rule sorted_wrt_filter) simp
  have ex1: "getMediumMove u 3 [Mark PlayerO, Mark PlayerO, Null, Mark PlayerX, Mark PlayerX, Null,
                            Null, Null, Null] = Some 2"
    by (simp add: getMediumMove_def rd_def spread_def js_set_def checkWinner3 upt_rec_numeral)
  have ex2: "getMediumMove u 3 [Mark PlayerX, Mark PlayerX, Null, Null, Null, Null,
                            Null, Null, Null] = Some 2"
    by (simp add: getMediumMove_def rd_def spread_def js_set_def checkWinner3 upt_rec_numeral)
  have c3: "getMediumMove u n b = Some ((n * n) div 2)"
    if "\<not> (\<exists>i. spec_completes n b PlayerO i)" "\<not> (\<exists>i. spec_completes n b PlayerX i)"
       "(n * n) div 2 < length b \<and> b ! ((n * n) div 2) = Null"
    using getMediumMove_chain(3)[OF assms(1) that(1,2), of u] that(3) by (simp add: rd_Null_iff)
  have fall: "getMediumMove v n b = getRandomMove v b"
    if "\<not> (\<exists>i. spec_completes n b PlayerO i)" "\<not> (\<exists>i. spec_completes n b PlayerX i)"
       "\<not> ((n * n) div 2 < length b \<and> b ! ((n * n) div 2) = Null)" for v
    using getMediumMove_chain(3)[OF assms(1) that(1,2), of v] that(3) by (simp add: rd_Null_iff)
  have c4: "getMediumMove u n b = Some (emptyCells b ! mathFloor (mulDouble u ?k))"
    if "\<not> (\<exists>i. spec_completes n b PlayerO i)" "\<not> (\<exists>i. spec_completes n b PlayerX i)"
       "\<not> ((n * n) div 2 < length b \<and> b ! ((n * n) div 2) = Null)"
    using fall[OF that, of u] ne by (simp add: getRandomMove_result(1)[OF assms(2)])
  have c5: "2 ^ g div ?k
              \<le> card {a. a < 2 ^ g \<and> getMediumMove (a, g) n b = Some (emptyCells b ! j)} + 1 \<and>
            card {a. a < 2 ^ g \<and> getMediumMove (a, g) n b = Some (emptyCells b ! j)}
              \<le> 2 ^ g div ?k + 2"
    if "\<not> (\<exists>i. spec_completes n b PlayerO i)" "\<not> (\<exists>i. spec_completes n b PlayerX i)"
       "\<not> ((n * n) div 2 < length b \<and> b ! ((n * n) div 2) = Null)"
       "g \<le> 53 \<and> j < ?k" for g j
    unfolding fall[OF that(1,2,3)]
    using getRandomMove_share[OF _ k53, of g j] that(4) by simp
  from getMediumMove_chain(1,2)[OF assms(1), of b u] c3 c4 c5 less cells srt
    distinct_emptyCells[of b] ex1 ex2
  show ?thesis by blast
qed

theorem getMediumMove_priority_witness:
  "randomValue (1, 1) \<and>
   getMediumMove (1, 1) 3 [Mark PlayerO, Mark PlayerO, Null, Mark PlayerX, Mark PlayerX, Null,
                           Null, Null, Null] = Some 2 \<and>
   getMediumMove (1, 1) 3 [Mark PlayerX, Mark PlayerX, Null, Null, Null, Null,
                           Null, Null, Null] = Some 2 \<and>
   randomValue (3752999689475413, 52) \<and>
   emptyCells [Mark PlayerX, Null, Null, Null, Mark PlayerO, Null, Null, Null, Mark PlayerX] =
     [1, 2, 3, 5, 6, 7] \<and>
   mathFloor (mulDouble (3752999689475413, 52) 6) = 5 \<and>
   getMediumMove (3752999689475413, 52) 3
     [Mark PlayerX, Null, Null, Null, Mark PlayerO, Null, Null, Null, Mark PlayerX] = Some 7"
proof -
  let ?b = "[Mark PlayerO, Mark PlayerO, Null, Mark PlayerX, Mark PlayerX, Null,
             Null, Null, Null]"
  let ?f = "[Mark PlayerX, Null, Null, Null, Mark PlayerO, Null, Null, Null, Mark PlayerX]"
  let ?v = "(3752999689475413, 52) :: double"
  have ex: "\<exists>i<length ?b. ?b ! i = Null" by (intro exI[of _ 2]) simp
  have rv: "randomValue (1, 1)" by (simp add: randomValue_def)
  from getMediumMove_priority[of 3 "(1, 1)" ?b, OF _ rv ex]
  have a: "getMediumMove (1, 1) 3 ?b = Some 2 \<and>
           getMediumMove (1, 1) 3 [Mark PlayerX, Mark PlayerX, Null, Null, Null, Null,
                           Null, Null, Null] = Some 2" by simp
  have rv2: "randomValue ?v" by (simp add: randomValue_def)
  have exf: "\<exists>i<length ?f. ?f ! i = Null" by (intro exI[of _ 1]) simp
  have em: "emptyCells ?f = [1, 2, 3, 5, 6, 7]"
    by (simp add: emptyCells_def rd_def upt_rec_numeral)
  have len: "length (emptyCells ?f) = 6" unfolding em by simp
  have ix: "mathFloor (mulDouble ?v 6) = 5"
    by (simp add: mathFloor_def mulDouble_def roundEven_def excess_numeral Let_def)
  have "find (\<lambda>i. rd ?f i = Null \<and> checkWinner (js_set (spread ?f) i (Mark p)) 3 p) [0..<length ?f] = None"
    for p
    by (cases p) (simp_all add: rd_def spread_def js_set_def checkWinner3 upt_rec_numeral)
  then have no: "\<not> (\<exists>i. spec_completes 3 ?f p i)" for p
    using find_completes[of 3 ?f p] by (simp split: if_splits)
  have ce: "\<not> ((3 * 3) div 2 < length ?f \<and> ?f ! ((3 * 3) div 2) = Null)" by simp
  from getMediumMove_priority[of 3 ?v ?f, OF _ rv2 exf] no[of PlayerO] no[of PlayerX] ce
  have "getMediumMove ?v 3 ?f = Some (emptyCells ?f ! mathFloor (mulDouble ?v (length (emptyCells ?f))))"
    by simp
  then have "getMediumMove ?v 3 ?f = Some (emptyCells ?f ! 5)" unfolding len ix .
  then have b: "getMediumMove ?v 3 ?f = Some 7" unfolding em by simp
  from rv a rv2 em ix b show ?thesis by simp
qed

section \<open>The selectors return an empty cell, or nothing on a full board\<close>

lemma getRandomMove_Some:
  assumes "randomValue u" "getRandomMove u b = Some i"
  shows "rd b i = Null"
proof -
  from assms(2) have ne: "emptyCells b \<noteq> []" by (auto simp: getRandomMove_def)
  from getRandomMove_result(2)[OF assms(1) ne]
  have "emptyCells b ! mathFloor (mulDouble u (length (emptyCells b))) \<in> set (emptyCells b)"
    by (rule nth_mem)
  with assms(2) ne getRandomMove_result(1)[OF assms(1), of b] show ?thesis
    by (simp add: emptyCells_iff)
qed

lemma getRandomMove_None:
  assumes "randomValue u"
  shows "getRandomMove u b = None \<longleftrightarrow> emptyCells b = []"
  using getRandomMove_result(1)[OF assms, of b] by simp

lemma find_Null_Some:
  "find (\<lambda>i. rd b i = Null \<and> Q i) xs = Some i \<Longrightarrow> rd b i = Null"
  by (auto simp: find_Some_iff)

lemma find_Null_None:
  "emptyCells b = [] \<Longrightarrow> find (\<lambda>i. rd b i = Null \<and> Q i) xs = None"
proof -
  assume "emptyCells b = []"
  then have "\<And>i. rd b i \<noteq> Null" using emptyCells_iff[of _ b] by auto
  then show ?thesis by (simp add: find_None_iff)
qed

lemma getMediumMove_Some:
  assumes "randomValue u" "getMediumMove u n b = Some i"
  shows "rd b i = Null"
  using assms(2) getRandomMove_Some[OF assms(1), of b i]
  unfolding getMediumMove_def Let_def
  by (auto split: option.splits if_splits dest: find_Null_Some)

lemma getMediumMove_None:
  assumes "randomValue u"
  shows "getMediumMove u n b = None \<longleftrightarrow> emptyCells b = []"
proof
  assume "getMediumMove u n b = None"
  then have "getRandomMove u b = None"
    unfolding getMediumMove_def Let_def by (auto split: option.splits if_splits)
  then show "emptyCells b = []" by (simp add: getRandomMove_None[OF assms])
next
  assume e: "emptyCells b = []"
  then have "rd b ((n * n) div 2) \<noteq> Null" using emptyCells_iff[of _ b] by auto
  with e show "getMediumMove u n b = None"
    unfolding getMediumMove_def Let_def
    by (simp add: find_Null_None getRandomMove_None[OF assms])
qed

lemma getBestMove_Some: "getBestMove n b = Some i \<Longrightarrow> rd b i = Null"
  unfolding getBestMove_find by (rule find_Null_Some)

lemma getBestMove_None:
  assumes "spec_board b"
  shows "getBestMove n b = None \<longleftrightarrow> emptyCells b = []"
proof
  assume "getBestMove n b = None"
  then show "emptyCells b = []"
    using getBestMove_spec_board[OF assms, of n] by (cases "emptyCells b = []") auto
next
  assume "emptyCells b = []"
  then show "getBestMove n b = None"
    unfolding getBestMove_find by (rule find_Null_None)
qed

text \<open>
  C8. For a state whose board is a board of the data model with \<open>boardSize * boardSize\<close>
  cells, a difficulty among easy, medium and hard, and any double \<open>u\<close> that
  \<open>Math.random()\<close> can return, the selection of \<open>makeAIMove\<close> returns nothing exactly
  when the board has no empty cell, and an index that it returns is below
  \<open>boardSize * boardSize\<close> and the cell there is empty.
\<close>

theorem aiMove_None_iff_full:
  assumes "spec_board (board s)"
    and "aiDifficulty s = ''easy'' \<or> aiDifficulty s = ''medium'' \<or> aiDifficulty s = ''hard''"
    and "randomValue u"
    and "length (board s) = boardSize s * boardSize s"
  shows "(aiMove u s = None \<longleftrightarrow> \<not> (\<exists>i<length (board s). board s ! i = Null)) \<and>
         (\<forall>i. aiMove u s = Some i \<longrightarrow> i < boardSize s * boardSize s \<and> board s ! i = Null)"
proof -
  have e: "emptyCells (board s) = [] \<longleftrightarrow> \<not> (\<exists>i<length (board s). board s ! i = Null)"
    by (auto simp: emptyCells_def filter_empty_conv rd_Null_iff)
  have none: "aiMove u s = None \<longleftrightarrow> emptyCells (board s) = []"
    using assms(2)
    by (auto simp: aiMove_def getRandomMove_None[OF assms(3)] getMediumMove_None[OF assms(3)]
        getBestMove_None[OF assms(1)])
  have some: "rd (board s) i = Null" if "aiMove u s = Some i" for i
    using that getRandomMove_Some[OF assms(3), of "board s" i]
      getMediumMove_Some[OF assms(3), of "boardSize s" "board s" i]
      getBestMove_Some[of "boardSize s" "board s" i]
    by (auto simp: aiMove_def split: if_splits)
  from none some e assms(4) show ?thesis by (auto simp: rd_Null_iff)
qed

theorem aiMove_None_iff_full_witness:
  "spec_board (board (initialState\<lparr>board := [Mark PlayerX, Mark PlayerO, Mark PlayerX,
       Mark PlayerO, Mark PlayerX, Mark PlayerO, Mark PlayerO, Mark PlayerX, Mark PlayerO],
       aiDifficulty := ''hard''\<rparr>)) \<and>
   randomValue (1, 1) \<and>
   aiMove (1, 1) (initialState\<lparr>board := [Mark PlayerX, Mark PlayerO, Mark PlayerX,
       Mark PlayerO, Mark PlayerX, Mark PlayerO, Mark PlayerO, Mark PlayerX, Mark PlayerO],
       aiDifficulty := ''hard''\<rparr>) = None \<and>
   spec_board (board (initialState\<lparr>board := [Mark PlayerX, Mark PlayerX, Null, Null, Null,
       Null, Null, Null, Null], aiDifficulty := ''medium''\<rparr>)) \<and>
   aiMove (1, 1) (initialState\<lparr>board := [Mark PlayerX, Mark PlayerX, Null, Null, Null,
       Null, Null, Null, Null], aiDifficulty := ''medium''\<rparr>) = Some 2 \<and>
   board (initialState\<lparr>board := [Mark PlayerX, Mark PlayerX, Null, Null, Null,
       Null, Null, Null, Null], aiDifficulty := ''medium''\<rparr>) ! 2 = Null"
proof -
  let ?full = "initialState\<lparr>board := [Mark PlayerX, Mark PlayerO, Mark PlayerX,
       Mark PlayerO, Mark PlayerX, Mark PlayerO, Mark PlayerO, Mark PlayerX, Mark PlayerO],
       aiDifficulty := ''hard''\<rparr>"
  let ?s = "initialState\<lparr>board := [Mark PlayerX, Mark PlayerX, Null, Null, Null,
       Null, Null, Null, Null], aiDifficulty := ''medium''\<rparr>"
  have sbf: "spec_board (board ?full)" by (simp add: spec_board_def spec_occupied_def)
  have sbs: "spec_board (board ?s)" by (simp add: spec_board_def spec_occupied_def)
  have rv: "randomValue (1, 1)" by (simp add: randomValue_def)
  have nof: "\<not> (\<exists>i<length (board ?full). board ?full ! i = Null)"
    by (auto simp: nth_Cons' less_Suc_eq numeral_eq_Suc)
  from aiMove_None_iff_full[OF sbf _ rv] nof
  have none: "aiMove (1, 1) ?full = None" by (simp add: initialState_def)
  have mv: "aiMove (1, 1) ?s = Some 2"
    by (simp add: aiMove_def initialState_def getMediumMove_def rd_def spread_def js_set_def
        checkWinner3 upt_rec_numeral)
  from aiMove_None_iff_full[OF sbs _ rv] mv
  have "board ?s ! 2 = Null" by (simp add: initialState_def)
  with sbf sbs rv none mv show ?thesis by simp
qed

section \<open>Successor boards and certificates\<close>

lemma scoresOf_map: "scoresOf n d m bs = map (\<lambda>b. score n b d m) bs"
  by (induction bs) simp_all

lemma rd_Cons_Suc: "rd (c # cs) (Suc i) = rd cs i"
  by (simp add: rd_def)

lemma js_set_Cons_Suc: "js_set (c # cs) (Suc i) v = c # js_set cs i v"
  by (simp add: js_set_def)

lemma emptyCells_Cons:
  "emptyCells (c # cs) = (if c = Null then [0] else []) @ map Suc (emptyCells cs)"
proof -
  have "[0..<length (c # cs)] = 0 # map Suc [0..<length cs]"
    by (simp add: upt_conv_Cons map_Suc_upt del: upt_Suc)
  then show ?thesis
    by (simp add: emptyCells_def filter_map comp_def rd_Cons_Suc rd_def)
qed

lemma succs_emptyCells:
  "map (\<lambda>j. js_set arr j (Mark p)) (emptyCells arr) = succs p arr"
proof (induction arr)
  case Nil
  then show ?case by (simp add: emptyCells_def)
next
  case (Cons c cs)
  have "map (\<lambda>j. js_set (c # cs) j (Mark p)) (map Suc (emptyCells cs)) =
        map ((#) c) (map (\<lambda>j. js_set cs j (Mark p)) (emptyCells cs))"
    by (simp add: js_set_Cons_Suc comp_def)
  with Cons show ?case
    by (simp add: emptyCells_Cons js_set_def)
qed

lemma score_succs:
  "score n arr d m =
     (if checkWinner arr n PlayerO then Num (10 - d)
      else if checkWinner arr n PlayerX then Num (d - 10)
      else if every_truthy arr then Num 0
      else if m then foldl max NegInf (scoresOf n (d + 1) False (succs PlayerO arr))
      else foldl min PosInf (scoresOf n (d + 1) True (succs PlayerX arr)))"
proof -
  have a: "map (\<lambda>j. score n (js_set arr j (Mark p)) d' m') (emptyCells arr) =
        scoresOf n d' m' (succs p arr)" for p d' m'
    unfolding scoresOf_map succs_emptyCells[symmetric] by (simp add: comp_def)
  show ?thesis by (subst score_unfold) (simp only: a)
qed

lemma every_truthy_simps:
  "every_truthy [] = True"
  "every_truthy (c # cs) = (if c = Hole \<or> truthy c then every_truthy cs else False)"
  by (simp_all add: every_truthy_def)


lemma holdsAny_iff: "holdsAny k n p w bs m \<longleftrightarrow> (\<exists>b\<in>set bs. holds k n p w b m)"
  by (induction bs) auto

lemma holdsAll_iff: "holdsAll k n p w bs m \<longleftrightarrow> (\<forall>b\<in>set bs. holds k n p w b m)"
  by (induction bs) auto

lemma succs_nulls:
  assumes "b' \<in> set (succs p b)"
  shows "nulls b' < nulls b"
proof -
  from assms obtain j where "j \<in> set (emptyCells b)" "b' = js_set b j (Mark p)"
    unfolding succs_emptyCells[symmetric] by auto
  then show ?thesis by (simp add: emptyCells_iff rd_Null_iff nulls_js_set_Mark)
qed

lemma foldl_max_gt_iff:
  fixes b :: "'a::linorder"
  shows "c < foldl max b xs \<longleftrightarrow> c < b \<or> (\<exists>x\<in>set xs. c < x)"
  using foldl_max_le_iff[of b xs c] by (auto simp: not_le[symmetric])

lemma foldl_min_lt_iff:
  fixes b :: "'a::linorder"
  shows "foldl min b xs < c \<longleftrightarrow> b < c \<or> (\<exists>x\<in>set xs. x < c)"
  using foldl_min_ge_iff[of c b xs] by (auto simp: not_le[symmetric])

lemma foldl_max_lt_iff:
  fixes b :: "'a::linorder"
  shows "foldl max b xs < c \<longleftrightarrow> b < c \<and> (\<forall>x\<in>set xs. x < c)"
  using foldl_max_ge_iff[of c b xs] by (auto simp: not_le[symmetric])

lemma foldl_min_gt_iff:
  fixes b :: "'a::linorder"
  shows "c < foldl min b xs \<longleftrightarrow> c < b \<and> (\<forall>x\<in>set xs. c < x)"
  using foldl_min_le_iff[of b xs c] by (auto simp: not_le[symmetric])

lemma jsnum_le_simps [simp]:
  "Num a \<le> Num b \<longleftrightarrow> a \<le> b" "\<not> Num a \<le> NegInf" "\<not> PosInf \<le> Num a" "\<not> PosInf \<le> NegInf"
  by simp_all

lemma holds_sound:
  "holds k n p w b m \<Longrightarrow> d + int (nulls b) \<le> 9 \<Longrightarrow> good p w (score n b d m)"
proof (induction k arbitrary: b m d)
  case 0
  then show ?case by simp
next
  case (Suc k)
  have d9: "d \<le> 9" using Suc.prems(2) by simp
  have child: "good p w (score n b' (d + 1) m')"
    if "b' \<in> set (succs q b)" "holds k n p w b' m'" for b' q m'
  proof -
    from succs_nulls[OF that(1)] Suc.prems(2) have "(d + 1) + int (nulls b') \<le> 9" by simp
    with that(2) show ?thesis by (rule Suc.IH)
  qed
  show ?case
  proof (cases "checkWinner b n PlayerO \<or> checkWinner b n PlayerX \<or> every_truthy b")
    case True
    with Suc.prems(1) d9 show ?thesis
      by (subst score_unfold) (auto simp: good_def split: if_splits)
  next
    case False
    then have sc: "score n b d m =
        (if m then foldl max NegInf (scoresOf n (d + 1) False (succs PlayerO b))
         else foldl min PosInf (scoresOf n (d + 1) True (succs PlayerX b)))"
      by (subst score_succs) simp
    from False Suc.prems(1) have h:
      "if m then (if p = PlayerO then holdsAny k n p w (succs PlayerO b) False
                  else holdsAll k n p w (succs PlayerO b) False)
       else (if p = PlayerX then holdsAny k n p w (succs PlayerX b) True
             else holdsAll k n p w (succs PlayerX b) True)"
      by simp
    have any: "\<exists>x\<in>set (succs q b). good p w (score n x (d + 1) m')"
      if "holdsAny k n p w (succs q b) m'" for q m'
      using that child by (auto simp: holdsAny_iff)
    have all: "\<forall>x\<in>set (succs q b). good p w (score n x (d + 1) m')"
      if "holdsAll k n p w (succs q b) m'" for q m'
      using that child by (auto simp: holdsAll_iff)
    show ?thesis
    proof (cases p)
      case PlayerX
      show ?thesis
      proof (cases m)
        case True
        with h PlayerX have "holdsAll k n p w (succs PlayerO b) False" by simp
        from all[OF this] True PlayerX show ?thesis
          unfolding sc good_def scoresOf_map
          by (auto simp: foldl_max_le_iff foldl_max_lt_iff)
      next
        case False
        with h PlayerX have "holdsAny k n p w (succs PlayerX b) True" by simp
        from any[OF this] False PlayerX show ?thesis
          unfolding sc good_def scoresOf_map
          by (auto simp: foldl_min_le_iff foldl_min_lt_iff)
      qed
    next
      case PlayerO
      show ?thesis
      proof (cases m)
        case True
        with h PlayerO have "holdsAny k n p w (succs PlayerO b) False" by simp
        from any[OF this] True PlayerO show ?thesis
          unfolding sc good_def scoresOf_map
          by (auto simp: foldl_max_ge_iff foldl_max_gt_iff)
      next
        case False
        with h PlayerO have "holdsAll k n p w (succs PlayerX b) True" by simp
        from all[OF this] False PlayerO show ?thesis
          unfolding sc good_def scoresOf_map
          by (auto simp: foldl_min_ge_iff foldl_min_gt_iff)
      qed
    qed
  qed
qed



lemma score_shift:
  "d + int (nulls b) \<le> 9 \<Longrightarrow> d' + int (nulls b) \<le> 9 \<Longrightarrow>
     (Num 0 \<le> score n b d m \<longleftrightarrow> Num 0 \<le> score n b d' m) \<and>
     (score n b d m \<le> Num 0 \<longleftrightarrow> score n b d' m \<le> Num 0)"
proof (induction "nulls b" arbitrary: b d d' m rule: less_induct)
  case less
  have d9: "d \<le> 9" "d' \<le> 9" using less.prems by simp_all
  show ?case
  proof (cases "checkWinner b n PlayerO \<or> checkWinner b n PlayerX \<or> every_truthy b")
    case True
    with d9 show ?thesis
      by (subst (1 2 3 4) score_unfold) auto
  next
    case False
    have sc: "score n b e m =
        (if m then foldl max NegInf (scoresOf n (e + 1) False (succs PlayerO b))
         else foldl min PosInf (scoresOf n (e + 1) True (succs PlayerX b)))" for e
      using False by (subst score_succs) simp
    have child: "(Num 0 \<le> score n b' (d + 1) m' \<longleftrightarrow> Num 0 \<le> score n b' (d' + 1) m') \<and>
                 (score n b' (d + 1) m' \<le> Num 0 \<longleftrightarrow> score n b' (d' + 1) m' \<le> Num 0)"
      if "b' \<in> set (succs q b)" for b' q m'
    proof -
      from succs_nulls[OF that] have lt: "nulls b' < nulls b" .
      with less.prems have "(d + 1) + int (nulls b') \<le> 9" "(d' + 1) + int (nulls b') \<le> 9"
        by simp_all
      with lt show ?thesis by (rule less.hyps)
    qed
    show ?thesis
      unfolding sc scoresOf_map
      using child
      by (cases m)
         (simp_all add: foldl_max_ge_iff foldl_max_le_iff foldl_min_ge_iff foldl_min_le_iff)
  qed
qed


section \<open>One move of each side\<close>

lemma score_open:
  assumes "\<not> checkWinner b n PlayerO" "\<not> checkWinner b n PlayerX" "\<not> every_truthy b"
  shows "score n b d True =
           foldl max NegInf (map (\<lambda>j. score n (js_set b j (Mark PlayerO)) (d + 1) False) (emptyCells b))"
    and "score n b d False =
           foldl min PosInf (map (\<lambda>j. score n (js_set b j (Mark PlayerX)) (d + 1) True) (emptyCells b))"
  using assms by (subst score_unfold, simp)+

lemma nulls_le_length: "nulls b \<le> length b"
  by (simp add: nulls_def)

lemma x_step:
  assumes nt: "\<not> checkWinner b n PlayerO" "\<not> checkWinner b n PlayerX" "\<not> every_truthy b"
    and i: "rd b i = Null" and n9: "nulls b \<le> 9" and n: "0 < n" and sb: "spec_board b"
  shows "Num 0 \<le> score n b 0 False \<Longrightarrow>
           \<not> checkWinner (js_set (spread b) i (Mark PlayerX)) n PlayerX \<and>
           Num 0 \<le> score n (js_set (spread b) i (Mark PlayerX)) 0 True"
    and "\<not> checkWinner (js_set (spread b) i (Mark PlayerX)) n PlayerO"
    and "score n b 0 False \<le> Num 0 \<Longrightarrow> minimaxChoiceX n b i \<Longrightarrow>
           score n (js_set (spread b) i (Mark PlayerX)) 0 True \<le> Num 0"
proof -
  let ?b' = "js_set (spread b) i (Mark PlayerX)"
  have sp: "spread b = b" using sb by (rule spec_board_spread)
  from i have il: "i < length b" by (simp add: rd_Null_iff)
  have mem: "i \<in> set (emptyCells b)" using i by (simp add: emptyCells_iff)
  show noO: "\<not> checkWinner ?b' n PlayerO"
    using no_foreign_line[of b i PlayerX n PlayerO] nt(1) n by auto
  have sh: "(Num 0 \<le> score n (js_set b j (Mark PlayerX)) 1 True
              \<longleftrightarrow> Num 0 \<le> score n (js_set b j (Mark PlayerX)) 0 True) \<and>
            (score n (js_set b j (Mark PlayerX)) 1 True \<le> Num 0
              \<longleftrightarrow> score n (js_set b j (Mark PlayerX)) 0 True \<le> Num 0)"
    if "rd b j = Null" for j
  proof -
    from that have "nulls (js_set b j (Mark PlayerX)) < nulls b"
      by (simp add: rd_Null_iff nulls_js_set_Mark)
    with n9 have "1 + int (nulls (js_set b j (Mark PlayerX))) \<le> 9"
      "0 + int (nulls (js_set b j (Mark PlayerX))) \<le> 9" by simp_all
    then show ?thesis by (rule score_shift)
  qed
  {
    assume ok: "Num 0 \<le> score n b 0 False"
    then have c1: "Num 0 \<le> score n ?b' 1 True"
      using mem unfolding score_open(2)[OF nt] sp by (simp add: foldl_min_ge_iff)
    have "\<not> checkWinner ?b' n PlayerX"
    proof
      assume "checkWinner ?b' n PlayerX"
      with noO have "score n ?b' 1 True = Num (1 - 10)" by (subst score_unfold) simp
      with c1 show False by simp
    qed
    moreover from c1 sh[OF i] have "Num 0 \<le> score n ?b' 0 True" by (simp add: sp)
    ultimately show "\<not> checkWinner ?b' n PlayerX \<and> Num 0 \<le> score n ?b' 0 True" ..
  }
  {
    assume le: "score n b 0 False \<le> Num 0" and ch: "minimaxChoiceX n b i"
    from nt(3) sb have "emptyCells b \<noteq> []" by (simp add: spec_board_not_full)
    with le obtain j where j: "rd b j = Null" "score n (js_set b j (Mark PlayerX)) 1 True \<le> Num 0"
      unfolding score_open(2)[OF nt] by (auto simp: foldl_min_le_iff emptyCells_iff)
    with sh[OF j(1)] have "score n (js_set b j (Mark PlayerX)) 0 True \<le> Num 0" by simp
    moreover from ch j(1) have "score n ?b' 0 True \<le> score n (js_set b j (Mark PlayerX)) 0 True"
      by (auto simp: minimaxChoiceX_def list_all_iff emptyCells_iff sp)
    ultimately show "score n ?b' 0 True \<le> Num 0" by (rule order_trans[rotated])
  }
qed

lemma o_step:
  assumes nt: "\<not> checkWinner b n PlayerO" "\<not> checkWinner b n PlayerX" "\<not> every_truthy b"
    and ok: "Num 0 \<le> score n b 0 True" and n9: "nulls b \<le> 9" and n: "0 < n" and sb: "spec_board b"
  shows "\<exists>i. getBestMove n b = Some i \<and> rd b i = Null \<and>
             Num 0 \<le> score n (js_set (spread b) i (Mark PlayerO)) 0 False \<and>
             \<not> checkWinner (js_set (spread b) i (Mark PlayerO)) n PlayerX \<and>
             (score n b 0 True \<le> Num 0 \<longrightarrow>
                score n (js_set (spread b) i (Mark PlayerO)) 0 False \<le> Num 0 \<and>
                \<not> checkWinner (js_set (spread b) i (Mark PlayerO)) n PlayerO)"
proof -
  have sp: "spread b = b" using sb by (rule spec_board_spread)
  have sh: "(Num 0 \<le> score n (js_set b j (Mark PlayerO)) 1 False
              \<longleftrightarrow> Num 0 \<le> score n (js_set b j (Mark PlayerO)) 0 False) \<and>
            (score n (js_set b j (Mark PlayerO)) 1 False \<le> Num 0
              \<longleftrightarrow> score n (js_set b j (Mark PlayerO)) 0 False \<le> Num 0)"
    if "rd b j = Null" for j
  proof -
    from that have "nulls (js_set b j (Mark PlayerO)) < nulls b"
      by (simp add: rd_Null_iff nulls_js_set_Mark)
    with n9 have "1 + int (nulls (js_set b j (Mark PlayerO))) \<le> 9"
      "0 + int (nulls (js_set b j (Mark PlayerO))) \<le> 9" by simp_all
    then show ?thesis by (rule score_shift)
  qed
  from nt(3) sb have ne: "emptyCells b \<noteq> []" by (simp add: spec_board_not_full)
  from getBestMove_spec_board[OF sb ne, of n] obtain i where
    i: "getBestMove n b = Some i" "rd b i = Null" "\<forall>j. rd b j = Null \<longrightarrow> oneply n b j \<le> oneply n b i"
    by blast
  let ?b' = "js_set (spread b) i (Mark PlayerO)"
  from ok obtain j where j: "rd b j = Null" "Num 0 \<le> score n (js_set b j (Mark PlayerO)) 1 False"
    unfolding score_open(1)[OF nt] by (auto simp: foldl_max_ge_iff emptyCells_iff)
  with sh[OF j(1)] have "Num 0 \<le> oneply n b j" by (simp add: oneply_def sp)
  with i(3) j(1) have ge: "Num 0 \<le> score n ?b' 0 False"
    unfolding oneply_def by (metis order_trans)
  have noX: "\<not> checkWinner ?b' n PlayerX"
    using no_foreign_line[of b i PlayerO n PlayerX] nt(2) n by auto
  have "score n ?b' 0 False \<le> Num 0 \<and> \<not> checkWinner ?b' n PlayerO" if le: "score n b 0 True \<le> Num 0"
  proof -
    from le i(2) have "score n (js_set b i (Mark PlayerO)) 1 False \<le> Num 0"
      unfolding score_open(1)[OF nt] by (auto simp: foldl_max_le_iff emptyCells_iff)
    with sh[OF i(2)] have l0: "score n ?b' 0 False \<le> Num 0" by (simp add: sp)
    have "\<not> checkWinner ?b' n PlayerO"
    proof
      assume "checkWinner ?b' n PlayerO"
      then have "score n ?b' 0 False = Num (10 - 0)" by (subst score_unfold) simp
      with l0 show False by simp
    qed
    with l0 show ?thesis ..
  qed
  with i(1,2) ge noX show ?thesis by blast
qed


section \<open>Invariants of the games\<close>

lemma click_fields:
  "boardSize (handleCellClick s i) = boardSize s"
  "aiDifficulty (handleCellClick s i) = aiDifficulty s"
  "isAIMode (handleCellClick s i) = isAIMode s"
  by (simp_all add: handleCellClick_def Let_def)

lemma click_applied:
  assumes "gameActive s" and "\<not> truthy (rd (board s) i)"
  shows "board (handleCellClick s i) = js_set (spread (board s)) i (Mark (currentPlayer s))"
    and "checkWinner (js_set (spread (board s)) i (Mark (currentPlayer s))) (boardSize s) (currentPlayer s)
         \<Longrightarrow> \<not> gameActive (handleCellClick s i) \<and>
             winnerMsg (handleCellClick s i) = WinsMessage (currentPlayer s)"
    and "\<not> checkWinner (js_set (spread (board s)) i (Mark (currentPlayer s))) (boardSize s) (currentPlayer s)
         \<Longrightarrow> isDraw (boardSize s) (js_set (spread (board s)) i (Mark (currentPlayer s)))
         \<Longrightarrow> \<not> gameActive (handleCellClick s i) \<and> winnerMsg (handleCellClick s i) = DrawMessage"
    and "\<not> checkWinner (js_set (spread (board s)) i (Mark (currentPlayer s))) (boardSize s) (currentPlayer s)
         \<Longrightarrow> \<not> isDraw (boardSize s) (js_set (spread (board s)) i (Mark (currentPlayer s)))
         \<Longrightarrow> gameActive (handleCellClick s i) \<and>
             currentPlayer (handleCellClick s i) = otherPlayer (currentPlayer s)"
  using assms by (simp_all add: handleCellClick_def Let_def)

lemma spec_board_empty_cell:
  assumes "spec_board b" and "i < length b" and "\<not> truthy (rd b i)"
  shows "rd b i = Null"
proof -
  from assms(1,2) have "b ! i = Null \<or> spec_occupied (b ! i)"
    by (auto simp: spec_board_def list_all_iff)
  with assms show ?thesis
    by (cases "b ! i") (auto simp: spec_board_rd spec_occupied_def)
qed

lemma spec_board_js_set:
  "spec_board b \<Longrightarrow> rd b i = Null \<Longrightarrow> spec_board (js_set (spread b) i (Mark p)) \<and>
     length (js_set (spread b) i (Mark p)) = length b"
  by (simp add: spec_board_spread rd_Null_iff js_set_in spec_board_update)

lemma hard_inv_x:
  assumes inv: "hard_inv s" and x: "currentPlayer s = PlayerX" and i: "i < length (board s)"
  shows "hard_inv (handleCellClick s i)"
proof (cases "\<not> gameActive s \<or> truthy (rd (board s) i)")
  case True
  with inv show ?thesis by (simp add: handleCellClick_def)
next
  case False
  let ?b = "board s"
  let ?nb = "js_set (spread ?b) i (Mark PlayerX)"
  let ?s' = "handleCellClick s i"
  from False have act: "gameActive s" and nt: "\<not> truthy (rd ?b i)" by simp_all
  from inv have sb: "spec_board ?b" and len: "length ?b = 9" and bs: "boardSize s = 3"
    by (simp_all add: hard_inv_def)
  from inv act x have open_: "\<not> checkWinner ?b 3 PlayerO" "\<not> checkWinner ?b 3 PlayerX"
    "\<not> every_truthy ?b" and ok: "Num 0 \<le> score 3 ?b 0 False"
    by (simp_all add: hard_inv_def)
  have e: "rd ?b i = Null" using sb i nt by (rule spec_board_empty_cell)
  have n9: "nulls ?b \<le> 9" using nulls_le_length[of ?b] len by simp
  from x_step(1)[OF open_ e n9 _ sb ok] have
    nx: "\<not> checkWinner ?nb 3 PlayerX" and ok': "Num 0 \<le> score 3 ?nb 0 True" by simp_all
  from x_step(2)[OF open_ e n9 _ sb] have no: "\<not> checkWinner ?nb 3 PlayerO" by simp
  from spec_board_js_set[OF sb e] len have sb': "spec_board ?nb" "length ?nb = 9" by simp_all
  have brd: "board ?s' = ?nb" using click_applied(1)[OF act nt] x by simp
  show ?thesis
  proof (cases "isDraw 3 ?nb")
    case True
    with click_applied(3)[OF act nt] x bs nx
    have "\<not> gameActive ?s'" "winnerMsg ?s' = DrawMessage" by simp_all
    with inv brd sb' nx show ?thesis by (simp add: hard_inv_def click_fields)
  next
    case nd: False
    with click_applied(4)[OF act nt] x bs nx
    have "gameActive ?s'" "currentPlayer ?s' = PlayerO" by (simp_all add: otherPlayer_def)
    moreover from nd nx no have "\<not> every_truthy ?nb" by (simp add: isDraw_def)
    ultimately show ?thesis
      using inv brd sb' nx no ok' by (simp add: hard_inv_def click_fields)
  qed
qed

lemma hard_inv_o:
  assumes inv: "hard_inv s" and o: "currentPlayer s = PlayerO" and act: "gameActive s"
  shows "hard_inv (makeAIMove u s)"
proof -
  let ?b = "board s"
  from inv have sb: "spec_board ?b" and len: "length ?b = 9" and bs: "boardSize s = 3"
    and hard: "aiDifficulty s = ''hard''"
    by (simp_all add: hard_inv_def)
  from inv act o have open_: "\<not> checkWinner ?b 3 PlayerO" "\<not> checkWinner ?b 3 PlayerX"
    "\<not> every_truthy ?b" and ok: "Num 0 \<le> score 3 ?b 0 True"
    by (simp_all add: hard_inv_def)
  have n9: "nulls ?b \<le> 9" using nulls_le_length[of ?b] len by simp
  from o_step[OF open_ ok n9 _ sb] obtain i where
    i: "getBestMove 3 ?b = Some i" "rd ?b i = Null"
       "Num 0 \<le> score 3 (js_set (spread ?b) i (Mark PlayerO)) 0 False"
       "\<not> checkWinner (js_set (spread ?b) i (Mark PlayerO)) 3 PlayerX"
    by auto
  let ?nb = "js_set (spread ?b) i (Mark PlayerO)"
  let ?s' = "handleCellClick s i"
  have mv: "makeAIMove u s = ?s'"
    using i(1) hard bs by (simp add: makeAIMove_def aiMove_def)
  have nt: "\<not> truthy (rd ?b i)" using i(2) by simp
  from spec_board_js_set[OF sb i(2)] len have sb': "spec_board ?nb" "length ?nb = 9" by simp_all
  have brd: "board ?s' = ?nb" using click_applied(1)[OF act nt] o by simp
  show ?thesis
  proof (cases "checkWinner ?nb 3 PlayerO")
    case True
    with click_applied(2)[OF act nt] o bs
    have "\<not> gameActive ?s'" "winnerMsg ?s' = WinsMessage PlayerO" by simp_all
    with inv brd sb' i(4) show ?thesis unfolding mv by (simp add: hard_inv_def click_fields)
  next
    case no: False
    show ?thesis
    proof (cases "isDraw 3 ?nb")
      case True
      with click_applied(3)[OF act nt] o bs no
      have "\<not> gameActive ?s'" "winnerMsg ?s' = DrawMessage" by simp_all
      with inv brd sb' i(4) show ?thesis unfolding mv by (simp add: hard_inv_def click_fields)
    next
      case nd: False
      with click_applied(4)[OF act nt] o bs no
      have "gameActive ?s'" "currentPlayer ?s' = PlayerX" by (simp_all add: otherPlayer_def)
      moreover from nd no i(4) have "\<not> every_truthy ?nb" by (simp add: isDraw_def)
      ultimately show ?thesis
        using inv brd sb' no i(3,4) unfolding mv by (simp add: hard_inv_def click_fields)
    qed
  qed
qed

lemma hard_inv_start:
  assumes "Num 0 \<le> score 3 (replicate 9 Null) 0 False"
  shows "hard_inv hardStart"
  using assms
  by (simp add: hard_inv_def hardStart_def newGame_def resetGame_def initialState_def
      checkWinner_replicate_Null spec_board_def every_truthy_def list_all_iff)



lemma draw_inv_x:
  assumes inv: "draw_inv s" and x: "currentPlayer s = PlayerX" and act: "gameActive s"
    and ch: "minimaxChoiceX (boardSize s) (board s) i"
  shows "draw_inv (handleCellClick s i)"
proof -
  let ?b = "board s"
  let ?nb = "js_set (spread ?b) i (Mark PlayerX)"
  let ?s' = "handleCellClick s i"
  from inv have hinv: "hard_inv s" by (simp add: draw_inv_def)
  then have sb: "spec_board ?b" and len: "length ?b = 9" and bs: "boardSize s = 3"
    by (simp_all add: hard_inv_def)
  from ch have e: "rd ?b i = Null" by (simp add: minimaxChoiceX_def)
  then have i: "i < length ?b" by (simp add: rd_Null_iff)
  from e have nt: "\<not> truthy (rd ?b i)" by simp
  from hinv act x have open_: "\<not> checkWinner ?b 3 PlayerO" "\<not> checkWinner ?b 3 PlayerX"
    "\<not> every_truthy ?b" and ok: "Num 0 \<le> score 3 ?b 0 False"
    by (simp_all add: hard_inv_def)
  from inv act x have le: "score 3 ?b 0 False \<le> Num 0" by (simp add: draw_inv_def)
  have n9: "nulls ?b \<le> 9" using nulls_le_length[of ?b] len by simp
  from x_step(1)[OF open_ e n9 _ sb ok] have nx: "\<not> checkWinner ?nb 3 PlayerX" by simp
  from x_step(2)[OF open_ e n9 _ sb] have no: "\<not> checkWinner ?nb 3 PlayerO" by simp
  from x_step(3)[OF open_ e n9 _ sb le] ch bs have le': "score 3 ?nb 0 True \<le> Num 0" by simp
  have brd: "board ?s' = ?nb" using click_applied(1)[OF act nt] x by simp
  have h': "hard_inv ?s'" using hinv x i by (rule hard_inv_x)
  show ?thesis
  proof (cases "isDraw 3 ?nb")
    case True
    with click_applied(3)[OF act nt] x bs nx
    have "\<not> gameActive ?s'" "winnerMsg ?s' = DrawMessage" by simp_all
    with h' brd no show ?thesis by (simp add: draw_inv_def)
  next
    case False
    with click_applied(4)[OF act nt] x bs nx
    have "gameActive ?s'" "currentPlayer ?s' = PlayerO" by (simp_all add: otherPlayer_def)
    with h' brd no le' show ?thesis by (simp add: draw_inv_def)
  qed
qed

lemma draw_inv_o:
  assumes inv: "draw_inv s" and o: "currentPlayer s = PlayerO" and act: "gameActive s"
  shows "draw_inv (makeAIMove u s)"
proof -
  let ?b = "board s"
  from inv have hinv: "hard_inv s" by (simp add: draw_inv_def)
  then have sb: "spec_board ?b" and len: "length ?b = 9" and bs: "boardSize s = 3"
    and hard: "aiDifficulty s = ''hard''"
    by (simp_all add: hard_inv_def)
  from hinv act o have open_: "\<not> checkWinner ?b 3 PlayerO" "\<not> checkWinner ?b 3 PlayerX"
    "\<not> every_truthy ?b" and ok: "Num 0 \<le> score 3 ?b 0 True"
    by (simp_all add: hard_inv_def)
  from inv act o have le: "score 3 ?b 0 True \<le> Num 0" by (simp add: draw_inv_def)
  have n9: "nulls ?b \<le> 9" using nulls_le_length[of ?b] len by simp
  from o_step[OF open_ ok n9 _ sb] le obtain i where
    i: "getBestMove 3 ?b = Some i" "rd ?b i = Null"
       "score 3 (js_set (spread ?b) i (Mark PlayerO)) 0 False \<le> Num 0"
       "\<not> checkWinner (js_set (spread ?b) i (Mark PlayerO)) 3 PlayerO"
    by auto
  let ?nb = "js_set (spread ?b) i (Mark PlayerO)"
  let ?s' = "handleCellClick s i"
  have mv: "makeAIMove u s = ?s'"
    using i(1) hard bs by (simp add: makeAIMove_def aiMove_def)
  have nt: "\<not> truthy (rd ?b i)" using i(2) by simp
  have brd: "board ?s' = ?nb" using click_applied(1)[OF act nt] o by simp
  have h': "hard_inv ?s'" using hard_inv_o[OF hinv o act, of u] by (simp add: mv)
  show ?thesis
  proof (cases "isDraw 3 ?nb")
    case True
    with click_applied(3)[OF act nt] o bs i(4)
    have "\<not> gameActive ?s'" "winnerMsg ?s' = DrawMessage" by simp_all
    with h' brd i(4) show ?thesis unfolding mv by (simp add: draw_inv_def)
  next
    case False
    with click_applied(4)[OF act nt] o bs i(4)
    have "gameActive ?s'" "currentPlayer ?s' = PlayerX" by (simp_all add: otherPlayer_def)
    with h' brd i(3,4) show ?thesis unfolding mv by (simp add: draw_inv_def)
  qed
qed

lemma draw_inv_start:
  assumes "Num 0 \<le> score 3 (replicate 9 Null) 0 False"
    and "score 3 (replicate 9 Null) 0 False \<le> Num 0"
  shows "draw_inv hardStart"
  using assms hard_inv_start[OF assms(1)]
  by (simp add: draw_inv_def hardStart_def newGame_def resetGame_def initialState_def
      checkWinner_replicate_Null)

section \<open>The search with the marks exchanged\<close>

lemma otherPlayer_invol [simp]: "otherPlayer (otherPlayer p) = p"
  by (cases p) (simp_all add: otherPlayer_def)

lemma swapMark_eq_Mark: "swapMark c = Mark p \<longleftrightarrow> c = Mark (otherPlayer p)"
  by (cases c) auto

lemma swapMark_simps [simp]:
  "truthy (swapMark c) = truthy c" "swapMark c = Null \<longleftrightarrow> c = Null"
  "swapMark c = Hole \<longleftrightarrow> c = Hole"
  by (cases c; simp)+

lemma rd_swapBoard: "rd (swapBoard b) i = swapMark (rd b i)"
  by (simp add: rd_def swapBoard_def)

lemma checkLine_swap:
  "checkLine (swapBoard b) sz p start step = checkLine b sz (otherPlayer p) start step"
  by (simp add: checkLine_def list_all_iff rd_swapBoard swapMark_eq_Mark)

lemma checkWinner_swap: "checkWinner (swapBoard b) n p = checkWinner b n (otherPlayer p)"
  by (simp add: checkWinner_def checkLine_swap rd_swapBoard)

lemma every_truthy_swap: "every_truthy (swapBoard b) = every_truthy b"
  by (simp add: every_truthy_def swapBoard_def list_all_iff)

lemma length_swapBoard [simp]: "length (swapBoard b) = length b"
  by (simp add: swapBoard_def)

lemma emptyCells_swap: "emptyCells (swapBoard b) = emptyCells b"
  by (simp add: emptyCells_def rd_swapBoard)

lemma no_foreign_line_plain:
  assumes "checkWinner (js_set arr i (Mark p)) n q" and "p \<noteq> q" and "0 < n"
  shows "checkWinner arr n q"
proof -
  have "spec_occupies arr q line" if "spec_occupies (js_set arr i (Mark p)) q line" for line
    using that assms(2) unfolding spec_occupies_def list_all_iff
    by (auto simp: rd_js_set_Mark split: if_splits)
  with assms(1,3) show ?thesis
    by (auto simp: checkWinner_lines spec_hasLine_def list_ex_iff)
qed

lemma js_set_swap:
  "js_set (swapBoard b) i (Mark p) = swapBoard (js_set b i (Mark (otherPlayer p)))"
  by (simp add: js_set_def swapBoard_def map_update)

lemma nulls_swap: "nulls (swapBoard b) = nulls b"
  by (induction b) (simp_all add: nulls_def swapBoard_def)

lemma neg_max: "neg (max a b) = min (neg a) (neg b)"
  by (cases a; cases b) (simp_all add: max_def min_def)

lemma neg_min: "neg (min a b) = max (neg a) (neg b)"
  by (cases a; cases b) (simp_all add: max_def min_def)

lemma neg_foldl_max: "neg (foldl max a xs) = foldl min (neg a) (map neg xs)"
  by (induction xs arbitrary: a) (simp_all add: neg_max)

lemma neg_foldl_min: "neg (foldl min a xs) = foldl max (neg a) (map neg xs)"
  by (induction xs arbitrary: a) (simp_all add: neg_min)

lemma neg_neg [simp]: "neg (neg a) = a"
  by (cases a) simp_all

lemma neg_le_iff: "neg a \<le> neg b \<longleftrightarrow> b \<le> a"
  by (cases a; cases b) simp_all

lemma score_swap:
  assumes "\<not> (checkWinner b n PlayerX \<and> checkWinner b n PlayerO)" and "0 < n"
  shows "score n (swapBoard b) d m = neg (score n b d (\<not> m))"
  using assms(1)
proof (induction "nulls b" arbitrary: b d m rule: less_induct)
  case less
  have sw: "checkWinner (swapBoard b) n PlayerO = checkWinner b n PlayerX"
    "checkWinner (swapBoard b) n PlayerX = checkWinner b n PlayerO"
    by (simp_all add: checkWinner_swap otherPlayer_def)
  show ?case
  proof (cases "checkWinner b n PlayerO \<or> checkWinner b n PlayerX \<or> every_truthy b")
    case True
    with less.prems show ?thesis
      by (subst (1 2) score_unfold) (auto simp: sw every_truthy_swap)
  next
    case False
    then have open_: "\<not> checkWinner b n PlayerO" "\<not> checkWinner b n PlayerX" "\<not> every_truthy b"
      by simp_all
    have open': "\<not> checkWinner (swapBoard b) n PlayerO" "\<not> checkWinner (swapBoard b) n PlayerX"
      "\<not> every_truthy (swapBoard b)"
      using open_ by (simp_all add: sw every_truthy_swap)
    have child: "score n (js_set (swapBoard b) j (Mark p)) d' m' =
                 neg (score n (js_set b j (Mark (otherPlayer p))) d' (\<not> m'))"
      if "j \<in> set (emptyCells b)" for j p d' m'
    proof -
      let ?c = "js_set b j (Mark (otherPlayer p))"
      from that have j: "j < length b" "rd b j = Null" by (simp_all add: emptyCells_iff rd_Null_iff)
      then have lt: "nulls ?c < nulls b" by (simp add: nulls_js_set_Mark)
      have "\<not> checkWinner ?c n p"
        using no_foreign_line_plain[of b j "otherPlayer p" n p] open_ assms(2)
        by (cases p) (auto simp: otherPlayer_def)
      then have "\<not> (checkWinner ?c n PlayerX \<and> checkWinner ?c n PlayerO)"
        by (cases p) auto
      with lt have "score n (swapBoard ?c) d' m' = neg (score n ?c d' (\<not> m'))"
        by (rule less.hyps)
      then show ?thesis by (simp add: js_set_swap)
    qed
    show ?thesis
    proof (cases m)
      case True
      have "score n (swapBoard b) d True =
            foldl max NegInf (map (\<lambda>j. neg (score n (js_set b j (Mark PlayerX)) (d + 1) True))
                                  (emptyCells b))"
        unfolding score_open(1)[OF open'] emptyCells_swap
        by (rule arg_cong[where f = "foldl max NegInf"], rule map_cong)
           (simp_all add: child otherPlayer_def)
      also have "\<dots> = neg (score n b d False)"
        unfolding score_open(2)[OF open_] by (simp add: neg_foldl_min comp_def)
      finally show ?thesis using True by simp
    next
      case False
      have "score n (swapBoard b) d False =
            foldl min PosInf (map (\<lambda>j. neg (score n (js_set b j (Mark PlayerO)) (d + 1) False))
                                  (emptyCells b))"
        unfolding score_open(2)[OF open'] emptyCells_swap
        by (rule arg_cong[where f = "foldl min PosInf"], rule map_cong)
           (simp_all add: child otherPlayer_def)
      also have "\<dots> = neg (score n b d True)"
        unfolding score_open(1)[OF open_] by (simp add: neg_foldl_max comp_def)
      finally show ?thesis using False by simp
    qed
  qed
qed


lemma spec_board_swap: "spec_board b \<Longrightarrow> spec_board (swapBoard b)"
proof -
  have "c = Null \<or> spec_occupied c \<Longrightarrow> swapMark c = Null \<or> spec_occupied (swapMark c)" for c
    by (cases c) (simp_all add: spec_occupied_def)
  then show "spec_board b \<Longrightarrow> spec_board (swapBoard b)"
    unfolding spec_board_def swapBoard_def list_all_iff by auto
qed

lemma mirror_choice:
  assumes sb: "spec_board b" and noO: "\<not> checkWinner b n PlayerO" and n: "0 < n"
    and g: "getBestMoveX n b = Some i"
  shows "minimaxChoiceX n b i"
proof -
  have sp: "spread b = b" "spread (swapBoard b) = swapBoard b"
    using sb by (simp_all add: spec_board_spread spec_board_swap)
  have one: "oneply n (swapBoard b) j = neg (score n (js_set b j (Mark PlayerX)) 0 True)" for j
  proof -
    have "\<not> checkWinner (js_set b j (Mark PlayerX)) n PlayerO"
      using no_foreign_line_plain[of b j PlayerX n PlayerO] noO n by auto
    then have "score n (swapBoard (js_set b j (Mark PlayerX))) 0 False =
               neg (score n (js_set b j (Mark PlayerX)) 0 (\<not> False))"
      by (intro score_swap n) simp
    then show ?thesis
      by (simp add: oneply_def sp js_set_swap otherPlayer_def)
  qed
  from g have i: "rd (swapBoard b) i = Null"
    unfolding getBestMoveX_def by (rule getBestMove_Some)
  then have ne: "emptyCells (swapBoard b) \<noteq> []" using emptyCells_iff[of i "swapBoard b"] by auto
  from getBestMove_spec_board[OF spec_board_swap[OF sb] ne, of n] g
  have mx: "\<forall>j. rd (swapBoard b) j = Null \<longrightarrow> oneply n (swapBoard b) j \<le> oneply n (swapBoard b) i"
    by (auto simp: getBestMoveX_def)
  have "score n (js_set b i (Mark PlayerX)) 0 True \<le> score n (js_set b j (Mark PlayerX)) 0 True"
    if "rd b j = Null" for j
    using mx that by (simp add: rd_swapBoard one neg_le_iff)
  with i show ?thesis
    by (simp add: minimaxChoiceX_def list_all_iff emptyCells_iff sp rd_swapBoard)
qed

section \<open>Games between two selectors\<close>

text \<open>
  Every move of such a game fills an empty cell and keeps the score of the position at 0,
  and on every position that is not final each side has a move; so the game is over after
  at most as many moves as the board has empty cells, and it is a draw.
\<close>

lemma selfPlay_end: "\<not> gameActive s \<Longrightarrow> selfPlay chooseX u k s = Some s"
  by (cases k) (simp_all add: selfPlay.simps)

lemma selfPlay_X:
  "gameActive s \<Longrightarrow> currentPlayer s = PlayerX \<Longrightarrow> chooseX (board s) = Some i \<Longrightarrow>
     selfPlay chooseX u (Suc k) s = selfPlay chooseX u k (handleCellClick s i)"
  by (simp add: selfPlay.simps)

lemma selfPlay_O:
  "gameActive s \<Longrightarrow> currentPlayer s = PlayerO \<Longrightarrow> isAIMode s \<Longrightarrow>
     selfPlay chooseX u (Suc k) s = selfPlay chooseX u k (makeAIMove u s)"
  by (simp add: selfPlay.simps)

declare selfPlay.simps [simp del]

lemma spec_board_full: "spec_board b \<Longrightarrow> nulls b = 0 \<Longrightarrow> every_truthy b"
proof -
  assume sb: "spec_board b" and z: "nulls b = 0"
  from z have "Null \<notin> set b" by (auto simp: nulls_def filter_empty_conv)
  with sb have "list_all spec_occupied b" by (auto simp: spec_board_def list_all_iff)
  with sb show ?thesis by (simp add: spec_board_every_truthy)
qed

lemma click_ended:
  assumes "gameActive s" and "\<not> truthy (rd (board s) i)" and "\<not> gameActive (handleCellClick s i)"
  shows "checkWinner (board (handleCellClick s i)) (boardSize s) (currentPlayer s) \<or>
         isDraw (boardSize s) (board (handleCellClick s i))"
  using assms by (auto simp: handleCellClick_def Let_def split: if_splits)

lemma nulls_spread: "nulls (spread b) = nulls b"
  by (induction b) (simp_all add: nulls_def spread_def)

lemma click_nulls:
  assumes "gameActive s" and "rd (board s) i = Null"
  shows "nulls (board (handleCellClick s i)) < nulls (board s)"
proof -
  from assms(2) have i: "i < length (board s)" by (simp add: rd_Null_iff)
  from assms have "board (handleCellClick s i) = js_set (spread (board s)) i (Mark (currentPlayer s))"
    by (simp add: board_handleCellClick)
  moreover have "nulls (js_set (spread (board s)) i (Mark (currentPlayer s))) < nulls (spread (board s))"
    using i assms(2) by (intro nulls_js_set_Mark) simp_all
  ultimately show ?thesis by (simp add: nulls_spread)
qed

lemma ai_move_click:
  assumes inv: "draw_inv s" and o: "currentPlayer s = PlayerO" and act: "gameActive s"
  shows "\<exists>i. rd (board s) i = Null \<and> makeAIMove u s = handleCellClick s i"
proof -
  let ?b = "board s"
  from inv have hinv: "hard_inv s" by (simp add: draw_inv_def)
  then have sb: "spec_board ?b" and len: "length ?b = 9" and bs: "boardSize s = 3"
    and hard: "aiDifficulty s = ''hard''"
    by (simp_all add: hard_inv_def)
  from hinv act o have open_: "\<not> checkWinner ?b 3 PlayerO" "\<not> checkWinner ?b 3 PlayerX"
    "\<not> every_truthy ?b" and ok: "Num 0 \<le> score 3 ?b 0 True"
    by (simp_all add: hard_inv_def)
  have n9: "nulls ?b \<le> 9" using nulls_le_length[of ?b] len by simp
  from o_step[OF open_ ok n9 _ sb] obtain i where
    i: "getBestMove 3 ?b = Some i" "rd ?b i = Null" by auto
  have "makeAIMove u s = handleCellClick s i"
    using i(1) hard bs by (simp add: makeAIMove_def aiMove_def)
  with i(2) show ?thesis by blast
qed

lemma selfPlay_draws:
  assumes sel: "searchSelectorX chooseX"
  shows "draw_inv s \<Longrightarrow> isAIMode s \<Longrightarrow> gameActive s \<Longrightarrow> nulls (board s) \<le> k \<Longrightarrow>
           \<exists>s'. selfPlay chooseX u k s = Some s' \<and> draw_inv s' \<and> \<not> gameActive s' \<and>
                isDraw 3 (board s')"
proof (induction k arbitrary: s)
  case 0
  then have "hard_inv s" by (simp add: draw_inv_def)
  with 0 have "spec_board (board s)" "\<not> every_truthy (board s)" by (simp_all add: hard_inv_def)
  with 0 spec_board_full[of "board s"] show ?case by simp
next
  case (Suc k)
  let ?b = "board s"
  from Suc.prems have hinv: "hard_inv s" by (simp add: draw_inv_def)
  then have sb: "spec_board ?b" and len: "length ?b = 9" and bs: "boardSize s = 3"
    by (simp_all add: hard_inv_def)
  from hinv Suc.prems(3) have open_: "\<not> checkWinner ?b 3 PlayerO" "\<not> checkWinner ?b 3 PlayerX"
    "\<not> every_truthy ?b"
    by (simp_all add: hard_inv_def)
  have "\<exists>i t. rd ?b i = Null \<and> t = handleCellClick s i \<and> draw_inv t \<and>
              selfPlay chooseX u (Suc k) s = selfPlay chooseX u k t"
  proof (cases "currentPlayer s = PlayerX")
    case True
    from sel sb len open_ obtain i where i: "chooseX ?b = Some i" "minimaxChoiceX 3 ?b i"
      unfolding searchSelectorX_def by blast
    from i(2) have e: "rd ?b i = Null" by (simp add: minimaxChoiceX_def)
    from i(2) bs have "draw_inv (handleCellClick s i)"
      by (intro draw_inv_x[OF Suc.prems(1) True Suc.prems(3)]) simp
    with e selfPlay_X[where chooseX = chooseX and s = s, OF Suc.prems(3) True i(1), of u k] show ?thesis by blast
  next
    case False
    then have o: "currentPlayer s = PlayerO" by (cases "currentPlayer s") simp_all
    from ai_move_click[OF Suc.prems(1) o Suc.prems(3), of u] obtain i where
      i: "rd ?b i = Null" "makeAIMove u s = handleCellClick s i" by blast
    from draw_inv_o[OF Suc.prems(1) o Suc.prems(3), of u] i(2)
    have "draw_inv (handleCellClick s i)" by simp
    with i selfPlay_O[where chooseX = chooseX and s = s, OF Suc.prems(3) o Suc.prems(2), of u k] show ?thesis by auto
  qed
  then obtain i t where t: "rd ?b i = Null" "t = handleCellClick s i" "draw_inv t"
    "selfPlay chooseX u (Suc k) s = selfPlay chooseX u k t" by blast
  have ai: "isAIMode t" using Suc.prems(2) by (simp add: t(2) click_fields)
  have nl: "nulls (board t) \<le> k"
    using click_nulls[OF Suc.prems(3) t(1)] Suc.prems(4) by (simp add: t(2))
  show ?case
  proof (cases "gameActive t")
    case True
    from Suc.IH[OF t(3) ai True nl] show ?thesis by (simp add: t(4))
  next
    case False
    from t(1) have nt: "\<not> truthy (rd ?b i)" by simp
    from click_ended[OF Suc.prems(3) nt] False
    have "checkWinner (board t) 3 (currentPlayer s) \<or> isDraw 3 (board t)"
      by (simp add: t(2) bs)
    moreover from t(3) have "\<not> checkWinner (board t) 3 PlayerX" "\<not> checkWinner (board t) 3 PlayerO"
      by (simp_all add: draw_inv_def hard_inv_def)
    ultimately have "isDraw 3 (board t)" by (cases "currentPlayer s") auto
    with False t(3) show ?thesis by (simp add: t(4) selfPlay_end)
  qed
qed

lemma oneply_swap:
  assumes sb: "spec_board b" and noO: "\<not> checkWinner b n PlayerO" and n: "0 < n"
  shows "oneply n (swapBoard b) j = neg (score n (js_set (spread b) j (Mark PlayerX)) 0 True)"
proof -
  have sp: "spread b = b" "spread (swapBoard b) = swapBoard b"
    using sb by (simp_all add: spec_board_spread spec_board_swap)
  have "\<not> checkWinner (js_set b j (Mark PlayerX)) n PlayerO"
    using no_foreign_line_plain[of b j PlayerX n PlayerO] noO n by auto
  then have "score n (swapBoard (js_set b j (Mark PlayerX))) 0 False =
             neg (score n (js_set b j (Mark PlayerX)) 0 (\<not> False))"
    by (intro score_swap n) simp
  then show ?thesis
    by (simp add: oneply_def sp js_set_swap otherPlayer_def)
qed

lemma mirror_selector: "searchSelectorX (getBestMoveX 3)"
  unfolding searchSelectorX_def
proof (intro allI impI)
  fix b
  assume a: "spec_board b \<and> length b = 9 \<and> \<not> checkWinner b 3 PlayerX \<and>
             \<not> checkWinner b 3 PlayerO \<and> \<not> every_truthy b"
  then have ne: "emptyCells (swapBoard b) \<noteq> []"
    using spec_board_not_full[of b] by (simp add: emptyCells_swap)
  from a have sbs: "spec_board (swapBoard b)" by (simp add: spec_board_swap)
  from getBestMove_spec_board[OF sbs ne, of 3] obtain i where "getBestMoveX 3 b = Some i"
    by (auto simp: getBestMoveX_def)
  moreover from this a have "minimaxChoiceX 3 b i" by (intro mirror_choice) simp_all
  ultimately show "\<exists>i. getBestMoveX 3 b = Some i \<and> minimaxChoiceX 3 b i" by blast
qed

lemma mirror_lowest:
  assumes sb: "spec_board b" and noO: "\<not> checkWinner b n PlayerO" and n: "0 < n"
    and ch: "minimaxChoiceX n b i"
    and low: "\<And>j. j < i \<Longrightarrow> rd b j = Null \<Longrightarrow> \<not> minimaxChoiceX n b j"
  shows "getBestMoveX n b = Some i"
proof -
  have sp: "spread b = b" using sb by (rule spec_board_spread)
  note one = oneply_swap[OF sb noO n]
  from ch have i: "rd b i = Null" by (simp add: minimaxChoiceX_def)
  then have ne: "emptyCells (swapBoard b) \<noteq> []"
    using emptyCells_iff[of i b] by (auto simp: emptyCells_swap)
  from getBestMove_spec_board[OF spec_board_swap[OF sb] ne, of n] obtain k where
    k: "getBestMoveX n b = Some k" "rd (swapBoard b) k = Null"
       "\<forall>j<k. rd (swapBoard b) j = Null \<longrightarrow> oneply n (swapBoard b) j < oneply n (swapBoard b) k"
    by (auto simp: getBestMoveX_def)
  from k(1) have chk: "minimaxChoiceX n b k" by (rule mirror_choice[OF sb noO n])
  then have kn: "rd b k = Null" by (simp add: minimaxChoiceX_def)
  have "\<not> i < k"
  proof
    assume "i < k"
    with k(3) i have "oneply n (swapBoard b) i < oneply n (swapBoard b) k"
      by (simp add: rd_swapBoard)
    then have "\<not> oneply n (swapBoard b) k \<le> oneply n (swapBoard b) i" by simp
    then have "\<not> score n (js_set (spread b) i (Mark PlayerX)) 0 True
                 \<le> score n (js_set (spread b) k (Mark PlayerX)) 0 True"
      by (simp add: one neg_le_iff)
    moreover from ch kn have "score n (js_set (spread b) i (Mark PlayerX)) 0 True
                 \<le> score n (js_set (spread b) k (Mark PlayerX)) 0 True"
      by (simp add: minimaxChoiceX_def list_all_iff emptyCells_iff)
    ultimately show False by simp
  qed
  moreover have "\<not> k < i" using low[OF _ kn] chk by blast
  ultimately have "k = i" by simp
  with k(1) show ?thesis by simp
qed

section \<open>Evaluating the search on 3x3 boards\<close>

lemma upd9:
  "[a,b,c,d,e,f,g,h,i][0 := v] = [v,b,c,d,e,f,g,h,i]"
  "[a,b,c,d,e,f,g,h,i][1 := v] = [a,v,c,d,e,f,g,h,i]"
  "[a,b,c,d,e,f,g,h,i][2 := v] = [a,b,v,d,e,f,g,h,i]"
  "[a,b,c,d,e,f,g,h,i][3 := v] = [a,b,c,v,e,f,g,h,i]"
  "[a,b,c,d,e,f,g,h,i][4 := v] = [a,b,c,d,v,f,g,h,i]"
  "[a,b,c,d,e,f,g,h,i][5 := v] = [a,b,c,d,e,v,g,h,i]"
  "[a,b,c,d,e,f,g,h,i][6 := v] = [a,b,c,d,e,f,v,h,i]"
  "[a,b,c,d,e,f,g,h,i][7 := v] = [a,b,c,d,e,f,g,v,i]"
  "[a,b,c,d,e,f,g,h,i][8 := v] = [a,b,c,d,e,f,g,h,v]"
  by (simp_all add: numeral_eq_Suc)

lemmas eval_simps = score_def[symmetric] score_succs checkWinner3 every_truthy_simps upd9

theorem getBestMove_argmax_witness:
  "spec_board [Mark PlayerX, Mark PlayerO, Mark PlayerX,
               Mark PlayerO, Mark PlayerO, Mark PlayerX,
               Mark PlayerX, Null, Null] \<and>
   (\<exists>i<length [Mark PlayerX, Mark PlayerO, Mark PlayerX,
               Mark PlayerO, Mark PlayerO, Mark PlayerX,
               Mark PlayerX, Null, Null].
      [Mark PlayerX, Mark PlayerO, Mark PlayerX,
       Mark PlayerO, Mark PlayerO, Mark PlayerX,
       Mark PlayerX, Null, Null] ! i = Null) \<and>
   getBestMove 3 [Mark PlayerX, Mark PlayerO, Mark PlayerX,
                  Mark PlayerO, Mark PlayerO, Mark PlayerX,
                  Mark PlayerX, Null, Null] = Some 7 \<and>
   fst (minimax 3 [Mark PlayerX, Mark PlayerO, Mark PlayerX,
                   Mark PlayerO, Mark PlayerO, Mark PlayerX,
                   Mark PlayerX, Mark PlayerO, Null] 0 False) = Num 10 \<and>
   fst (minimax 3 [Mark PlayerX, Mark PlayerO, Mark PlayerX,
                   Mark PlayerO, Mark PlayerO, Mark PlayerX,
                   Mark PlayerX, Null, Mark PlayerO] 0 False) = Num 0"
proof -
  let ?b = "[Mark PlayerX, Mark PlayerO, Mark PlayerX,
             Mark PlayerO, Mark PlayerO, Mark PlayerX,
             Mark PlayerX, Null, Null]"
  have sb: "spec_board ?b" by (simp add: spec_board_def spec_occupied_def)
  have ex: "\<exists>i<length ?b. ?b ! i = Null" by (intro exI[of _ 7]) simp
  have s7: "fst (minimax 3 (?b[7 := Mark PlayerO]) 0 False) = Num 10"
    by (simp add: eval_simps)
  have s8: "fst (minimax 3 (?b[8 := Mark PlayerO]) 0 False) = Num 0"
    by (simp add: eval_simps)
  from getBestMove_argmax[OF sb ex, of 3] obtain i where
    i: "getBestMove 3 ?b = Some i" "i < length ?b" "?b ! i = Null"
       "\<forall>j<i. ?b ! j = Null \<longrightarrow>
          fst (minimax 3 (?b[j := Mark PlayerO]) 0 False) < fst (minimax 3 (?b[i := Mark PlayerO]) 0 False)"
    by blast
  from i(2,3) have "i = 7 \<or> i = 8"
    by (auto simp: nth_Cons' less_Suc_eq numeral_eq_Suc split: if_splits)
  moreover have "i \<noteq> 8"
  proof
    assume "i = 8"
    with i(4) have "?b ! 7 = Null \<longrightarrow> fst (minimax 3 (?b[7 := Mark PlayerO]) 0 False)
                    < fst (minimax 3 (?b[8 := Mark PlayerO]) 0 False)" by (auto simp del: list_update.simps)
    then have "fst (minimax 3 (?b[7 := Mark PlayerO]) 0 False)
                    < fst (minimax 3 (?b[8 := Mark PlayerO]) 0 False)" by simp
    with s7 s8 show False by simp
  qed
  ultimately have "getBestMove 3 ?b = Some 7" using i(1) by simp
  with sb ex s7 s8 show ?thesis by (simp add: upd9)
qed


section \<open>The value of the empty board\<close>

text \<open>
  Two certificates, evaluated by rewriting: after each of X's nine first moves O can
  avoid a loss, and from the empty board X can avoid a loss.
\<close>

lemma holds_numeral:
  "holds (numeral v) n p w b m =
     (if checkWinner b n PlayerO then p = PlayerO
      else if checkWinner b n PlayerX then p = PlayerX
      else if every_truthy b then \<not> w
      else if m then
        (if p = PlayerO then holdsAny (pred_numeral v) n p w (succs PlayerO b) False
         else holdsAll (pred_numeral v) n p w (succs PlayerO b) False)
      else
        (if p = PlayerX then holdsAny (pred_numeral v) n p w (succs PlayerX b) True
         else holdsAll (pred_numeral v) n p w (succs PlayerX b) True))"
  using holds.simps(2)[of "pred_numeral v" n p w b m]
  by (simp add: numeral_eq_Suc del: holds.simps)

lemmas cert_simps = holds_numeral checkWinner3 every_truthy_simps

lemma cert_first_moves:
  "holdsAll 9 3 PlayerO False (succs PlayerX (replicate 9 Null)) True"
  by (simp add: replicate9 cert_simps)

lemma cert_X: "holds 10 3 PlayerX False (replicate 9 Null) False"
  by (simp add: replicate9 cert_simps)

lemma nulls_replicate9: "nulls (replicate 9 Null) = 9"
  by (simp add: nulls_def)

lemma first_moves_nonneg:
  assumes "b' \<in> set (succs PlayerX (replicate 9 Null))" and "d \<le> 1"
  shows "Num 0 \<le> score 3 b' d True"
proof -
  from assms(1) cert_first_moves have "holds 9 3 PlayerO False b' True"
    by (simp add: holdsAll_iff)
  moreover from succs_nulls[OF assms(1)] assms(2) have "d + int (nulls b') \<le> 9"
    by (simp add: nulls_replicate9)
  ultimately have "good PlayerO False (score 3 b' d True)" by (rule holds_sound)
  then show ?thesis by (simp add: good_def)
qed

lemma start_nonneg: "Num 0 \<le> score 3 (replicate 9 Null) 0 False"
proof -
  have "score 3 (replicate 9 Null) 0 False =
        foldl min PosInf (scoresOf 3 (0 + 1) True (succs PlayerX (replicate 9 Null)))"
    by (subst score_succs) (simp add: checkWinner_replicate_Null every_truthy_def list_all_iff)
  then show ?thesis
    using first_moves_nonneg[of _ 1] by (simp add: scoresOf_map foldl_min_ge_iff)
qed

lemma start_nonpos: "score 3 (replicate 9 Null) 0 False \<le> Num 0"
proof -
  have "good PlayerX False (score 3 (replicate 9 Null) 0 False)"
    by (rule holds_sound[OF cert_X]) (simp add: nulls_replicate9)
  then show ?thesis by (simp add: good_def)
qed

section \<open>Two example games\<close>

lemma hardStart_state: "hardStart = hardState (replicate 9 Null) PlayerX"
  by (simp add: hardState_def hardStart_def newGame_def resetGame_def initialState_def)

lemmas state_simps = hardState_def hardStart_def newGame_def resetGame_def initialState_def
  handleCellClick_def Let_def rd_def spread_def js_set_def upd9 checkWinner3 isDraw_def
  every_truthy_simps otherPlayer_def replicate9

lemma move1: "handleCellClick hardStart 0 =
    hardState [Mark PlayerX, Null, Null, Null, Null, Null, Null, Null, Null] PlayerO"
  by (simp add: state_simps)

lemma best_by_bounds:
  assumes sb: "spec_board b" and i: "rd b i = Null" and ge: "Num 0 \<le> oneply n b i"
    and lt: "\<And>j. rd b j = Null \<Longrightarrow> j \<noteq> i \<Longrightarrow> oneply n b j < Num 0"
  shows "getBestMove n b = Some i"
proof -
  from i have ne: "emptyCells b \<noteq> []" using emptyCells_iff[of i b] by auto
  from getBestMove_spec_board[OF sb ne, of n] obtain k where
    k: "getBestMove n b = Some k" "rd b k = Null" "\<forall>j. rd b j = Null \<longrightarrow> oneply n b j \<le> oneply n b k"
    by blast
  from k(3) i ge have "Num 0 \<le> oneply n b k" by (metis order_trans)
  with lt[OF k(2)] have "k = i" by (cases "k = i") auto
  with k(1) show ?thesis by simp
qed

lemma cert_nonneg:
  "holds k n PlayerO False b m \<Longrightarrow> nulls b \<le> 9 \<Longrightarrow> Num 0 \<le> score n b 0 m"
  using holds_sound[of k n PlayerO False b m 0] by (simp add: good_def)

lemma cert_nonpos:
  "holds k n PlayerX False b m \<Longrightarrow> nulls b \<le> 9 \<Longrightarrow> score n b 0 m \<le> Num 0"
  using holds_sound[of k n PlayerX False b m 0] by (simp add: good_def)

lemma cert_neg:
  "holds k n PlayerX True b m \<Longrightarrow> nulls b \<le> 9 \<Longrightarrow> score n b 0 m < Num 0"
  using holds_sound[of k n PlayerX True b m 0] by (simp add: good_def)

lemma nine_cases:
  assumes "idx < (9::nat)"
  obtains (c0) "idx = 0" | (c1) "idx = 1" | (c2) "idx = 2" | (c3) "idx = 3" | (c4) "idx = 4"
    | (c5) "idx = 5" | (c6) "idx = 6" | (c7) "idx = 7" | (c8) "idx = 8"
  using assms by linarith

lemma nulls9: "length b = 9 \<Longrightarrow> nulls b \<le> 9"
  using nulls_le_length[of b] by simp

lemma best1: "getBestMove 3 [Mark PlayerX, Null, Null, Null, Null, Null, Null, Null, Null] = Some 4"
proof (rule best_by_bounds)
  let ?b = "[Mark PlayerX, Null, Null, Null, Null, Null, Null, Null, Null]"
  show "spec_board ?b" by (simp add: spec_board_def spec_occupied_def)
  show "rd ?b 4 = Null" by (simp add: rd_def)
  show "Num 0 \<le> oneply 3 ?b 4"
    unfolding oneply_def
    by (rule cert_nonneg[of 8]) (simp_all add: spread_def js_set_def upd9 cert_simps nulls9)
  show "oneply 3 ?b j < Num 0" if "rd ?b j = Null" "j \<noteq> 4" for j
  proof -
    from that(1) have "j < 9" by (simp add: rd_Null_iff)
    then show ?thesis
    proof (cases rule: nine_cases)
      case c0
      with that show ?thesis by (simp add: rd_def)
    next
      case c4
      with that show ?thesis by simp
    qed (simp_all add: oneply_def, (rule cert_neg[of 8], simp_all add: spread_def js_set_def upd9 cert_simps nulls9)+)
  qed
qed


lemma ai_click:
  "getBestMove 3 b = Some i \<Longrightarrow> makeAIMove u (hardState b p) = handleCellClick (hardState b p) i"
  by (simp add: makeAIMove_def aiMove_def hardState_def hardStart_def newGame_def resetGame_def
      initialState_def)

lemma move2: "makeAIMove u (hardState [Mark PlayerX, Null, Null, Null, Null, Null, Null, Null, Null] PlayerO) =
    hardState [Mark PlayerX, Null, Null, Null, Mark PlayerO, Null, Null, Null, Null] PlayerX"
  unfolding ai_click[OF best1] by (simp add: state_simps)

lemma emptyCells_spread: "emptyCells (spread b) = emptyCells b"
  by (simp add: emptyCells_def)

lemma choiceX_succs:
  "minimaxChoiceX n b i =
     (rd b i = Null \<and>
      list_all (\<lambda>v. score n (js_set (spread b) i (Mark PlayerX)) 0 True \<le> v)
               (scoresOf n 0 True (succs PlayerX (spread b))))"
  unfolding minimaxChoiceX_def scoresOf_map succs_emptyCells[symmetric]
  by (simp add: list_all_iff emptyCells_spread)

lemma choiceX_by_bounds:
  assumes i: "rd b i = Null"
    and le: "score n (js_set (spread b) i (Mark PlayerX)) 0 True \<le> Num 0"
    and ge: "holdsAll k n PlayerO False (succs PlayerX (spread b)) True"
    and n9: "length b = 9"
  shows "minimaxChoiceX n b i"
proof -
  have "Num 0 \<le> score n b' 0 True" if "b' \<in> set (succs PlayerX (spread b))" for b'
  proof -
    from ge that have "holds k n PlayerO False b' True" by (simp add: holdsAll_iff)
    moreover from succs_nulls[OF that] nulls9[of "spread b"] n9 have "nulls b' \<le> 9" by simp
    ultimately show ?thesis by (rule cert_nonneg)
  qed
  with le have "score n (js_set (spread b) i (Mark PlayerX)) 0 True \<le> score n b' 0 True"
    if "b' \<in> set (succs PlayerX (spread b))" for b'
    using that by (metis order_trans)
  with i show ?thesis
    unfolding choiceX_succs scoresOf_map by (simp add: list_all_iff)
qed

lemma choice1: "minimaxChoiceX 3 (replicate 9 Null) 0"
proof (rule choiceX_by_bounds[of _ _ _ 9])
  show "rd (replicate 9 Null) 0 = Null" by (simp add: rd_def)
  show "score 3 (js_set (spread (replicate 9 Null)) 0 (Mark PlayerX)) 0 True \<le> Num 0"
    by (rule cert_nonpos[of 9]) (simp_all add: replicate9 spread_def js_set_def cert_simps nulls9)
  show "holdsAll 9 3 PlayerO False (succs PlayerX (spread (replicate 9 Null))) True"
    using cert_first_moves by (simp add: spread_def)
  show "length (replicate 9 Null :: board) = 9" by simp
qed

lemma choice2: "minimaxChoiceX 3 [Mark PlayerX, Null, Null, Null, Mark PlayerO, Null, Null, Null, Null] 1"
proof (rule choiceX_by_bounds[of _ _ _ 7])
  let ?b = "[Mark PlayerX, Null, Null, Null, Mark PlayerO, Null, Null, Null, Null]"
  show "rd ?b 1 = Null" by (simp add: rd_def)
  show "score 3 (js_set (spread ?b) 1 (Mark PlayerX)) 0 True \<le> Num 0"
    by (rule cert_nonpos[of 7]) (simp_all add: spread_def js_set_def cert_simps nulls9)
  show "holdsAll 7 3 PlayerO False (succs PlayerX (spread ?b)) True"
    by (simp add: spread_def cert_simps)
  show "length ?b = 9" by simp
qed

lemma move3: "handleCellClick (hardState [Mark PlayerX, Null, Null, Null, Mark PlayerO, Null, Null, Null, Null] PlayerX) 1 =
    hardState [Mark PlayerX, Mark PlayerX, Null, Null, Mark PlayerO, Null, Null, Null, Null] PlayerO"
  by (simp add: state_simps)

lemmas best_simps = getBestMove_def bestStep_alt oneply_def rd_def spread_def js_set_def upd9
  score_succs checkWinner3 every_truthy_simps upt_rec_numeral

lemma best2: "getBestMove 3 [Mark PlayerX, Mark PlayerX, Null, Null, Mark PlayerO, Null, Null, Null, Null] = Some 2"
  by (simp add: best_simps)


lemma move4: "makeAIMove u (hardState [Mark PlayerX, Mark PlayerX, Null, Null, Mark PlayerO, Null, Null, Null, Null] PlayerO) =
    hardState [Mark PlayerX, Mark PlayerX, Mark PlayerO, Null, Mark PlayerO, Null, Null, Null, Null] PlayerX"
  unfolding ai_click[OF best2] by (simp add: state_simps)

lemma move5: "handleCellClick (hardState [Mark PlayerX, Mark PlayerX, Mark PlayerO, Null, Mark PlayerO, Null, Null, Null, Null] PlayerX) 6 =
    hardState [Mark PlayerX, Mark PlayerX, Mark PlayerO, Null, Mark PlayerO, Null, Mark PlayerX, Null, Null] PlayerO"
  by (simp add: state_simps)

lemma best3: "getBestMove 3 [Mark PlayerX, Mark PlayerX, Mark PlayerO, Null, Mark PlayerO, Null, Mark PlayerX, Null, Null] = Some 3"
  by (simp add: best_simps)

lemma move6: "makeAIMove u (hardState [Mark PlayerX, Mark PlayerX, Mark PlayerO, Null, Mark PlayerO, Null, Mark PlayerX, Null, Null] PlayerO) =
    hardState [Mark PlayerX, Mark PlayerX, Mark PlayerO, Mark PlayerO, Mark PlayerO, Null, Mark PlayerX, Null, Null] PlayerX"
  unfolding ai_click[OF best3] by (simp add: state_simps)

lemma move7: "handleCellClick (hardState [Mark PlayerX, Mark PlayerX, Mark PlayerO, Mark PlayerO, Mark PlayerO, Null, Mark PlayerX, Null, Null] PlayerX) 5 =
    hardState [Mark PlayerX, Mark PlayerX, Mark PlayerO, Mark PlayerO, Mark PlayerO, Mark PlayerX, Mark PlayerX, Null, Null] PlayerO"
  by (simp add: state_simps)

lemma best4: "getBestMove 3 [Mark PlayerX, Mark PlayerX, Mark PlayerO, Mark PlayerO, Mark PlayerO, Mark PlayerX, Mark PlayerX, Null, Null] = Some 7"
  by (simp add: best_simps)

lemma move8: "makeAIMove u (hardState [Mark PlayerX, Mark PlayerX, Mark PlayerO, Mark PlayerO, Mark PlayerO, Mark PlayerX, Mark PlayerX, Null, Null] PlayerO) =
    hardState [Mark PlayerX, Mark PlayerX, Mark PlayerO, Mark PlayerO, Mark PlayerO, Mark PlayerX, Mark PlayerX, Mark PlayerO, Null] PlayerX"
  unfolding ai_click[OF best4] by (simp add: state_simps)

lemma move9: "handleCellClick (hardState [Mark PlayerX, Mark PlayerX, Mark PlayerO, Mark PlayerO, Mark PlayerO, Mark PlayerX, Mark PlayerX, Mark PlayerO, Null] PlayerX) 8 =
    (hardState [Mark PlayerX, Mark PlayerX, Mark PlayerO, Mark PlayerO, Mark PlayerO, Mark PlayerX, Mark PlayerX, Mark PlayerO, Mark PlayerX] PlayerX)
      \<lparr>gameActive := False, winnerMsg := DrawMessage\<rparr>"
  by (simp add: state_simps)

lemma exampleGame_final:
  "exampleGame =
     (hardState [Mark PlayerX, Mark PlayerX, Mark PlayerO, Mark PlayerO, Mark PlayerO, Mark PlayerX,
                 Mark PlayerX, Mark PlayerO, Mark PlayerX] PlayerX)
       \<lparr>gameActive := False, winnerMsg := DrawMessage\<rparr>"
  unfolding exampleGame_def move1 move2 move3 move4 move5 move6 move7 move8 move9 ..

lemma hardState_fields:
  "board (hardState b p) = b" "currentPlayer (hardState b p) = p" "gameActive (hardState b p)"
  "isAIMode (hardState b p)" "boardSize (hardState b p) = 3"
  by (simp_all add: hardState_def hardStart_def newGame_def resetGame_def initialState_def)

lemma exampleGame_hard: "hardGame exampleGame"
proof -
  note f = hardState_fields
  have "hardGame (handleCellClick hardStart 0)"
    by (rule hard_human[OF hard_start]) (unfold hardStart_state f, simp_all add: f)
  then have "hardGame (makeAIMove (0, 0) (handleCellClick hardStart 0))"
    by (rule hard_ai) (unfold move1 f, simp_all add: f)
  then have "hardGame (handleCellClick (makeAIMove (0, 0) (handleCellClick hardStart 0)) 1)"
    by (rule hard_human) (unfold move1 move2 f, simp_all add: f)
  then have "hardGame (makeAIMove (0, 0) (handleCellClick (makeAIMove (0, 0) (handleCellClick hardStart 0)) 1))"
    by (rule hard_ai) (unfold move1 move2 move3 f, simp_all add: f)
  then have "hardGame (handleCellClick (makeAIMove (0, 0) (handleCellClick (makeAIMove (0, 0)
      (handleCellClick hardStart 0)) 1)) 6)"
    by (rule hard_human) (unfold move1 move2 move3 move4 f, simp_all add: f)
  then have "hardGame (makeAIMove (0, 0) (handleCellClick (makeAIMove (0, 0) (handleCellClick (makeAIMove (0, 0)
      (handleCellClick hardStart 0)) 1)) 6))"
    by (rule hard_ai) (unfold move1 move2 move3 move4 move5 f, simp_all add: f)
  then have "hardGame (handleCellClick (makeAIMove (0, 0) (handleCellClick (makeAIMove (0, 0)
      (handleCellClick (makeAIMove (0, 0) (handleCellClick hardStart 0)) 1)) 6)) 5)"
    by (rule hard_human) (unfold move1 move2 move3 move4 move5 move6 f, simp_all add: f)
  then have "hardGame (makeAIMove (0, 0) (handleCellClick (makeAIMove (0, 0) (handleCellClick (makeAIMove (0, 0)
      (handleCellClick (makeAIMove (0, 0) (handleCellClick hardStart 0)) 1)) 6)) 5))"
    by (rule hard_ai) (unfold move1 move2 move3 move4 move5 move6 move7 f, simp_all add: f)
  then show ?thesis
    unfolding exampleGame_def
    by (rule hard_human) (unfold move1 move2 move3 move4 move5 move6 move7 move8 f, simp_all add: f)
qed

text \<open>
  The moves of the hard selector with the marks exchanged, on the boards of \<open>exampleGame\<close>
  on which X is to move.
\<close>

lemma mirror1: "getBestMoveX 3 (replicate 9 Null) = Some 0"
  by (rule mirror_lowest[OF _ _ _ choice1])
     (simp_all add: spec_board_def checkWinner_replicate_Null list_all_iff)

lemma mirror2: "getBestMoveX 3 [Mark PlayerX, Null, Null, Null, Mark PlayerO, Null, Null, Null, Null] = Some 1"
  by (rule mirror_lowest[OF _ _ _ choice2])
     (simp_all add: spec_board_def spec_occupied_def checkWinner3 rd_def)

lemmas mirror_simps = getBestMoveX_def swapBoard_def otherPlayer_def best_simps

lemma mirror3: "getBestMoveX 3 [Mark PlayerX, Mark PlayerX, Mark PlayerO, Null, Mark PlayerO, Null, Null, Null, Null] = Some 6"
  by (simp add: mirror_simps)

lemma mirror4: "getBestMoveX 3 [Mark PlayerX, Mark PlayerX, Mark PlayerO, Mark PlayerO, Mark PlayerO, Null, Mark PlayerX, Null, Null] = Some 5"
  by (simp add: mirror_simps)

lemma mirror5: "getBestMoveX 3 [Mark PlayerX, Mark PlayerX, Mark PlayerO, Mark PlayerO, Mark PlayerO, Mark PlayerX, Mark PlayerX, Mark PlayerO, Null] = Some 8"
  by (simp add: mirror_simps)

lemma play_X:
  "getBestMoveX 3 b = Some i \<Longrightarrow>
     selfPlay (getBestMoveX 3) u (Suc k) (hardState b PlayerX) =
       selfPlay (getBestMoveX 3) u k (handleCellClick (hardState b PlayerX) i)"
  by (rule selfPlay_X) (simp_all add: hardState_fields)

lemma play_O:
  "selfPlay chooseX u (Suc k) (hardState b PlayerO) =
     selfPlay chooseX u k (makeAIMove u (hardState b PlayerO))"
  by (rule selfPlay_O) (simp_all add: hardState_fields)

lemma mirror_game: "selfPlay (getBestMoveX 3) u 9 hardStart = Some exampleGame"
proof -
  let ?c = "getBestMoveX 3"
  have "selfPlay ?c u 9 hardStart = selfPlay ?c u (Suc 8) (hardState (replicate 9 Null) PlayerX)"
    by (simp add: hardStart_state)
  also have "\<dots> = selfPlay ?c u 8 (handleCellClick hardStart 0)"
    unfolding play_X[OF mirror1] hardStart_state ..
  also have "\<dots> = selfPlay ?c u (Suc 7)
      (hardState [Mark PlayerX, Null, Null, Null, Null, Null, Null, Null, Null] PlayerO)"
    unfolding move1 by simp
  also have "\<dots> = selfPlay ?c u (Suc 6)
      (hardState [Mark PlayerX, Null, Null, Null, Mark PlayerO, Null, Null, Null, Null] PlayerX)"
    unfolding play_O move2 by simp
  also have "\<dots> = selfPlay ?c u (Suc 5)
      (hardState [Mark PlayerX, Mark PlayerX, Null, Null, Mark PlayerO, Null, Null, Null, Null] PlayerO)"
    unfolding play_X[OF mirror2] move3 by simp
  also have "\<dots> = selfPlay ?c u (Suc 4)
      (hardState [Mark PlayerX, Mark PlayerX, Mark PlayerO, Null, Mark PlayerO, Null, Null, Null, Null] PlayerX)"
    unfolding play_O move4 by simp
  also have "\<dots> = selfPlay ?c u (Suc 3)
      (hardState [Mark PlayerX, Mark PlayerX, Mark PlayerO, Null, Mark PlayerO, Null, Mark PlayerX, Null, Null] PlayerO)"
    unfolding play_X[OF mirror3] move5 by simp
  also have "\<dots> = selfPlay ?c u (Suc 2)
      (hardState [Mark PlayerX, Mark PlayerX, Mark PlayerO, Mark PlayerO, Mark PlayerO, Null, Mark PlayerX, Null, Null] PlayerX)"
    unfolding play_O move6 by simp
  also have "\<dots> = selfPlay ?c u (Suc 1)
      (hardState [Mark PlayerX, Mark PlayerX, Mark PlayerO, Mark PlayerO, Mark PlayerO, Mark PlayerX, Mark PlayerX, Null, Null] PlayerO)"
    unfolding play_X[OF mirror4] move7 by (simp add: numeral_2_eq_2)
  also have "\<dots> = selfPlay ?c u (Suc 0)
      (hardState [Mark PlayerX, Mark PlayerX, Mark PlayerO, Mark PlayerO, Mark PlayerO, Mark PlayerX, Mark PlayerX, Mark PlayerO, Null] PlayerX)"
    unfolding play_O move8 by simp
  also have "\<dots> = selfPlay ?c u 0 exampleGame"
    unfolding play_X[OF mirror5] move9 exampleGame_final ..
  also have "\<dots> = Some exampleGame"
    by (rule selfPlay_end) (simp add: exampleGame_final)
  finally show ?thesis .
qed








section \<open>The hard opponent never loses\<close>



section \<open>Search against search ends in a draw\<close>

text \<open>
  C6. A 3x3 game in which O moves by \<open>makeAIMove\<close> at difficulty \<open>hard\<close> and X by a
  selector that chooses by the search (a least-score cell on every open board) comes to
  its end within nine moves, and it ends in a draw: the game is over, the message is the
  draw, and the board is a draw.
\<close>

theorem minimax_against_minimax_draws:
  assumes "searchSelectorX chooseX" and "9 \<le> k"
  shows "\<exists>s. selfPlay chooseX u k hardStart = Some s \<and> \<not> gameActive s \<and>
             winnerMsg s = DrawMessage \<and> isDraw 3 (board s)"
proof -
  have "nulls (board hardStart) \<le> k"
    using assms(2) by (simp add: hardStart_state hardState_fields nulls_replicate9)
  with selfPlay_draws[OF assms(1) draw_inv_start[OF start_nonneg start_nonpos], of k u]
  obtain s where "selfPlay chooseX u k hardStart = Some s" "draw_inv s" "\<not> gameActive s"
    "isDraw 3 (board s)"
    by (auto simp: hardStart_state hardState_fields)
  then show ?thesis by (auto simp: draw_inv_def)
qed

theorem minimax_against_minimax_draws_witness:
  "selfPlay (getBestMoveX 3) (0, 0) 9 hardStart = Some exampleGame \<and>
   \<not> gameActive exampleGame \<and> winnerMsg exampleGame = DrawMessage \<and>
   board exampleGame = [Mark PlayerX, Mark PlayerX, Mark PlayerO, Mark PlayerO, Mark PlayerO,
                        Mark PlayerX, Mark PlayerX, Mark PlayerO, Mark PlayerX] \<and>
   isDraw 3 (board exampleGame)"
proof -
  have b: "board exampleGame = [Mark PlayerX, Mark PlayerX, Mark PlayerO, Mark PlayerO, Mark PlayerO,
                        Mark PlayerX, Mark PlayerX, Mark PlayerO, Mark PlayerX]"
    by (simp add: exampleGame_final hardState_def)
  from minimax_against_minimax_draws[OF mirror_selector, of 9 "(0, 0)"]
  obtain s where "selfPlay (getBestMoveX 3) (0, 0) 9 hardStart = Some s" "\<not> gameActive s"
    "winnerMsg s = DrawMessage" "isDraw 3 (board s)" by auto
  with mirror_game[of "(0, 0)"] b show ?thesis by simp
qed
end
